theory Spec2Isabelle
  imports Main
begin

section \<open>Data model of the game scene\<close>

text \<open>
  The power-up kinds of \<^verbatim>\<open>type PowerUpType\<close> (the value \<^verbatim>\<open>null\<close> is \<open>None\<close> of
  the option type that wraps it).
\<close>

datatype PowerUpType = HorizontalRocket | VerticalRocket | Tnt | LightBall

text \<open>The string a power-up type is in the source; it is what is stored as pseudo-color.\<close>

fun powerUpName :: "PowerUpType \<Rightarrow> string" where
  "powerUpName HorizontalRocket = ''horizontal-rocket''"
| "powerUpName VerticalRocket = ''vertical-rocket''"
| "powerUpName Tnt = ''tnt''"
| "powerUpName LightBall = ''light-ball''"

text \<open>
  \<^verbatim>\<open>type Cell\<close> without its sprite (rendering only). \<open>color\<close> is \<open>None\<close> for the
  \<^verbatim>\<open>null\<close> of a freshly created cell.
\<close>

record Cell =
  row :: nat
  column :: nat
  color :: "string option"
  empty :: bool
  powerup :: "PowerUpType option"

type_synonym Board = "Cell list list"

text \<open>
  \<^verbatim>\<open>this.board[r][c]\<close> read, and the write to that slot. A cell object is held by the
  one slot its \<open>row\<close> and \<open>column\<close> name, so a mutation of the object is a write to
  that slot. Reads and writes out of range raise in the source; every theorem below is
  about in-range positions of a board of the right shape.
\<close>

definition cellAt :: "Board \<Rightarrow> nat \<Rightarrow> nat \<Rightarrow> Cell" where
  "cellAt b r c = b ! r ! c"

definition putCell :: "Board \<Rightarrow> nat \<Rightarrow> nat \<Rightarrow> Cell \<Rightarrow> Board" where
  "putCell b r c x = b[r := (b ! r)[c := x]]"

text \<open>\<^verbatim>\<open>this.board[r][c].empty = true\<close>\<close>

definition markEmpty :: "Board \<Rightarrow> nat \<Rightarrow> nat \<Rightarrow> Board" where
  "markEmpty b r c = putCell b r c ((cellAt b r c)\<lparr>empty := True\<rparr>)"

text \<open>
  The shape every board of the scene has: \<open>n\<close> rows of \<open>n\<close> cells
  (\<open>n\<close> is \<^verbatim>\<open>NUMBER_OF_CELLS_PER_ROW\<close>, imported as \<^verbatim>\<open>size\<close> from a constants
  module; it is a parameter of every operation here), each cell carrying its own position.
  \<^verbatim>\<open>createEmptyBoard\<close> establishes it and \<^verbatim>\<open>swapCells\<close> keeps it.
\<close>

definition wellFormed :: "nat \<Rightarrow> Board \<Rightarrow> bool" where
  "wellFormed n b \<longleftrightarrow>
     length b = n \<and>
     list_all (\<lambda>r. length (b ! r) = n \<and>
                    list_all (\<lambda>c. row (cellAt b r c) = r \<and> column (cellAt b r c) = c) [0..<n])
              [0..<n]"

definition explosionThreshold :: nat where
  "explosionThreshold = 3"

section \<open>Swapping\<close>

text \<open>
  \<^verbatim>\<open>swapCells\<close>: the two objects exchange their position fields and are stored at
  their new positions. The updated objects are returned with the board, since the
  callers go on using the same two references.
\<close>

definition swapCells :: "Board \<Rightarrow> Cell \<Rightarrow> Cell \<Rightarrow> Cell \<times> Cell \<times> Board" where
  "swapCells b firstCell secondCell =
     (let firstCell' = firstCell\<lparr>row := row secondCell, column := column secondCell\<rparr>;
          secondCell' = secondCell\<lparr>row := row firstCell, column := column firstCell\<rparr>;
          b1 = putCell b (row firstCell') (column firstCell') firstCell';
          b2 = putCell b1 (row secondCell') (column secondCell') secondCell'
      in (firstCell', secondCell', b2))"

section \<open>Match detection\<close>

text \<open>
  \<^verbatim>\<open>shouldExplodeHorizontally\<close>: the start positions \<open>column - 2 .. column\<close> of a
  window of three; a window counts when it lies on the board and neighbouring colors agree.
\<close>

definition shouldExplodeHorizontally :: "nat \<Rightarrow> Board \<Rightarrow> Cell \<Rightarrow> bool" where
  "shouldExplodeHorizontally n b cell =
     list_ex (\<lambda>startPosition.
        (let endPosition = startPosition + int explosionThreshold - 1
         in startPosition \<ge> 0 \<and> endPosition < int n \<and>
            list_all (\<lambda>index. color (cellAt b (row cell) index) = color (cellAt b (row cell) (index + 1)))
                     [nat startPosition ..< nat endPosition]))
       [int (column cell) - int explosionThreshold + 1 .. int (column cell)]"

definition shouldExplodeVertically :: "nat \<Rightarrow> Board \<Rightarrow> Cell \<Rightarrow> bool" where
  "shouldExplodeVertically n b cell =
     list_ex (\<lambda>startPosition.
        (let endPosition = startPosition + int explosionThreshold - 1
         in startPosition \<ge> 0 \<and> endPosition < int n \<and>
            list_all (\<lambda>index. color (cellAt b index (column cell)) = color (cellAt b (index + 1) (column cell)))
                     [nat startPosition ..< nat endPosition]))
       [int (row cell) - int explosionThreshold + 1 .. int (row cell)]"

definition shouldExplode :: "nat \<Rightarrow> Board \<Rightarrow> Cell \<Rightarrow> bool" where
  "shouldExplode n b cell =
     (if powerup cell \<noteq> None then False
      else shouldExplodeHorizontally n b cell \<or> shouldExplodeVertically n b cell)"

definition boardShouldExplode :: "nat \<Rightarrow> Board \<Rightarrow> bool" where
  "boardShouldExplode n b = list_ex (\<lambda>line. list_ex (\<lambda>cell. shouldExplode n b cell) line) b"

text \<open>
  \<^verbatim>\<open>getExplodingChainsOnLine\<close>. \<open>runEnd\<close> is the inner loop: the first index \<open>j > i\<close>
  at which the color differs from the one at \<open>i\<close> (or the end of the line).
\<close>

definition runEnd :: "Cell list \<Rightarrow> nat \<Rightarrow> nat" where
  "runEnd line i = i + 1 + length (takeWhile (\<lambda>c. color c = color (line ! i)) (drop (i + 1) line))"

function getExplodingChainsFrom :: "Cell list \<Rightarrow> nat \<Rightarrow> Cell list list" where
  "getExplodingChainsFrom line i =
     (if i < length line then
        (if runEnd line i - i \<ge> explosionThreshold
         then take (runEnd line i - i) (drop i line) # getExplodingChainsFrom line (runEnd line i)
         else getExplodingChainsFrom line (i + 1))
      else [])"
  by pat_completeness auto
termination
  by (relation "measure (\<lambda>(line, i). length line - i)") (auto simp: runEnd_def)

declare getExplodingChainsFrom.simps [simp del]

definition getExplodingChainsOnLine :: "Cell list \<Rightarrow> Cell list list" where
  "getExplodingChainsOnLine line = getExplodingChainsFrom line 0"

text \<open>\<^verbatim>\<open>Phaser.Utils.Array.Matrix.TransposeMatrix\<close> on the board: line \<open>c\<close> is column \<open>c\<close>.\<close>

definition TransposeMatrix :: "Board \<Rightarrow> Board" where
  "TransposeMatrix b = map (\<lambda>c. map (\<lambda>r. cellAt b r c) [0..<length b]) [0..<length (b ! 0)]"

definition getExplodingChains :: "Board \<Rightarrow> Cell list list" where
  "getExplodingChains b = concat (map getExplodingChainsOnLine (b @ TransposeMatrix b))"

definition getCellsToDestroy :: "nat \<Rightarrow> Board \<Rightarrow> Cell list" where
  "getCellsToDestroy n b =
     filter (\<lambda>cell. (shouldExplode n b cell \<or> empty cell) \<and> powerup cell = None) (concat b)"

section \<open>Power-ups\<close>

definition getNeighbors :: "nat \<Rightarrow> Board \<Rightarrow> Cell \<Rightarrow> Cell list" where
  "getNeighbors n b cell =
     (if row cell > 0 then [cellAt b (row cell - 1) (column cell)] else []) @
     (if row cell < n - 1 then [cellAt b (row cell + 1) (column cell)] else []) @
     (if column cell > 0 then [cellAt b (row cell) (column cell - 1)] else []) @
     (if column cell < n - 1 then [cellAt b (row cell) (column cell + 1)] else [])"

text \<open>A JavaScript string is truthy when it is neither \<^verbatim>\<open>null\<close> nor empty.\<close>

definition truthyColor :: "string option \<Rightarrow> bool" where
  "truthyColor c = (case c of None \<Rightarrow> False | Some s \<Rightarrow> s \<noteq> [])"

definition getAdjacentGemColor :: "nat \<Rightarrow> Board \<Rightarrow> Cell \<Rightarrow> string option" where
  "getAdjacentGemColor n b cell =
     (case find (\<lambda>neighbor. \<not> empty neighbor \<and> powerup neighbor = None \<and> truthyColor (color neighbor))
                (getNeighbors n b cell) of
        None \<Rightarrow> None
      | Some neighbor \<Rightarrow> color neighbor)"

text \<open>
  \<^verbatim>\<open>triggerPowerUp\<close>. The switch of the source has the three cases below and no case
  for \<^verbatim>\<open>'tnt'\<close>, which therefore only consumes the cell.
\<close>

definition triggerPowerUp :: "nat \<Rightarrow> Board \<Rightarrow> Cell \<Rightarrow> Board" where
  "triggerPowerUp n b cell =
     (case powerup cell of
        None \<Rightarrow> b
      | Some powerUpType \<Rightarrow>
          (let cell' = cell\<lparr>powerup := None, empty := True\<rparr>;
               b1 = putCell b (row cell) (column cell) cell'
           in (case powerUpType of
                 HorizontalRocket \<Rightarrow>
                   fold (\<lambda>col bb. markEmpty bb (row cell') col) [0..<n] b1
               | VerticalRocket \<Rightarrow>
                   fold (\<lambda>r bb. markEmpty bb r (column cell')) [0..<n] b1
               | LightBall \<Rightarrow>
                   (case getAdjacentGemColor n b1 cell' of
                      None \<Rightarrow> b1
                    | Some targetColor \<Rightarrow>
                        fold (\<lambda>r bb.
                                fold (\<lambda>col bbb.
                                        if color (cellAt bbb r col) = Some targetColor
                                        then markEmpty bbb r col else bbb)
                                     [0..<n] bb)
                             [0..<n] b1)
               | Tnt \<Rightarrow> b1)))"

text \<open>
  \<^verbatim>\<open>createPowerUpsFromChains\<close>; \<open>createPowerUpFromChain\<close> is the body of its loop.
  A chain holds references to cells of the board, so its writes go to the slots the
  chain's cells name.
\<close>

definition createPowerUpFromChain :: "Board \<Rightarrow> Cell list \<Rightarrow> Board" where
  "createPowerUpFromChain b chain =
     (if length chain \<ge> 4 then
        (let isHorizontal = (row (chain ! 0) = row (chain ! 1));
             middleIndex = length chain div 2;
             powerUpCell = chain ! middleIndex;
             powerUpType = (if length chain \<ge> 5 then LightBall
                            else if isHorizontal then HorizontalRocket
                            else VerticalRocket);
             b1 = fold (\<lambda>i bb. if i \<noteq> middleIndex
                                 then markEmpty bb (row (chain ! i)) (column (chain ! i))
                                 else bb)
                       [0..<length chain] b
         in putCell b1 (row powerUpCell) (column powerUpCell)
              ((cellAt b1 (row powerUpCell) (column powerUpCell))
                 \<lparr>color := Some (powerUpName powerUpType), powerup := Some powerUpType\<rparr>))
      else b)"

definition createPowerUpsFromChains :: "Board \<Rightarrow> Cell list list \<Rightarrow> Board" where
  "createPowerUpsFromChains b chainList = fold (\<lambda>chain bb. createPowerUpFromChain bb chain) chainList b"

section \<open>Gravity\<close>

definition getLowestEmptyCellBelow :: "nat \<Rightarrow> Board \<Rightarrow> Cell \<Rightarrow> Cell option" where
  "getLowestEmptyCellBelow n b cell =
     find (\<lambda>belowCell. empty belowCell)
          (map (\<lambda>r. cellAt b r (column cell)) (rev [row cell + 1 ..< n]))"

text \<open>The body of the inner loop of \<^verbatim>\<open>makeCellsFall\<close>, then the two loops.\<close>

definition fallStep :: "nat \<Rightarrow> nat \<Rightarrow> nat \<Rightarrow> Board \<Rightarrow> Board" where
  "fallStep n col r b =
     (let cell = cellAt b r col
      in (case getLowestEmptyCellBelow n b cell of
            None \<Rightarrow> b
          | Some lowestEmptyCell \<Rightarrow>
              if \<not> empty cell then snd (snd (swapCells b cell lowestEmptyCell)) else b))"

definition makeCellsFall :: "nat \<Rightarrow> Board \<Rightarrow> Board" where
  "makeCellsFall n b = fold (\<lambda>col bb. fold (fallStep n col) (rev [0..<n]) bb) [0..<n] b"

section \<open>The no-moves oracle\<close>

text \<open>
  The body of the inner loop of \<^verbatim>\<open>getWinningMoves\<close>: the trial swap to the right and
  the trial swap down, each undone by a second call on the same two objects.
\<close>

definition tryMoves :: "nat \<Rightarrow> nat \<Rightarrow> nat \<Rightarrow> (Cell \<times> Cell) list \<times> Board \<Rightarrow> (Cell \<times> Cell) list \<times> Board" where
  "tryMoves n r c acc =
     (let winningMoves = fst acc; b = snd acc;
          cell = cellAt b r c;
          right = cellAt b r (c + 1);
          down = cellAt b (r + 1) c;
          s1 = swapCells b cell right;
          winningMoves1 = (if boardShouldExplode n (snd (snd s1))
                           then winningMoves @ [(cell, right)] else winningMoves);
          s2 = swapCells (snd (snd s1)) (fst s1) (fst (snd s1));
          s3 = swapCells (snd (snd s2)) (fst s2) down;
          winningMoves2 = (if boardShouldExplode n (snd (snd s3))
                           then winningMoves1 @ [(cell, down)] else winningMoves1);
          s4 = swapCells (snd (snd s3)) (fst s3) (fst (snd s3))
      in (winningMoves2, snd (snd s4)))"

text \<open>
  \<^verbatim>\<open>getWinningMoves\<close>: the list it returns, and the board it leaves behind.
\<close>

definition getWinningMoves :: "nat \<Rightarrow> Board \<Rightarrow> (Cell \<times> Cell) list \<times> Board" where
  "getWinningMoves n b =
     fold (\<lambda>r acc. fold (\<lambda>c acc'. tryMoves n r c acc') [0..<n - 1] acc) [0..<n - 1] ([], b)"

section \<open>A swap that involves power-ups\<close>

text \<open>
  \<^verbatim>\<open>cellsAreNeighbours\<close>; the source subtracts on JavaScript numbers, so the
  differences are taken on integers.
\<close>

definition cellsAreNeighbours :: "Cell \<Rightarrow> Cell \<Rightarrow> bool" where
  "cellsAreNeighbours cell1 cell2 \<longleftrightarrow>
     (row cell1 = row cell2 \<and>
        (int (column cell1) = int (column cell2) + 1 \<or> int (column cell1) = int (column cell2) - 1)) \<or>
     (column cell1 = column cell2 \<and>
        (int (row cell1) = int (row cell2) + 1 \<or> int (row cell1) = int (row cell2) - 1))"

text \<open>
  The part of \<^verbatim>\<open>onPointerDown\<close> from the swap of the two chosen cells to the
  activation of the power-ups among them (before \<^verbatim>\<open>destroyCells\<close>): the flag
  \<^verbatim>\<open>hasPowerUp\<close> and the board. The second cell is read again after the first
  activation, which may have marked it empty.
\<close>

definition swapAndTrigger :: "nat \<Rightarrow> Board \<Rightarrow> Cell \<Rightarrow> Cell \<Rightarrow> bool \<times> Board" where
  "swapAndTrigger n b firstCell secondCell =
     (let s = swapCells b firstCell secondCell;
          firstCell' = fst s;
          secondCell' = fst (snd s);
          b1 = snd (snd s);
          hasPowerUp = (powerup firstCell' \<noteq> None \<or> powerup secondCell' \<noteq> None)
      in if hasPowerUp then
           (let b2 = (if powerup firstCell' \<noteq> None then triggerPowerUp n b1 firstCell' else b1);
                secondCell'' = cellAt b2 (row secondCell') (column secondCell')
            in (hasPowerUp,
                if powerup secondCell'' \<noteq> None then triggerPowerUp n b2 secondCell'' else b2))
         else (hasPowerUp, b1))"

section \<open>The scene: score, moves and the pointer handler\<close>

text \<open>
  The fields of \<^verbatim>\<open>GameScene\<close> that the game logic reads and writes. \<open>picked\<close>
  counts the calls of \<^verbatim>\<open>Phaser.Math.RND.pick\<close> made so far: the random generator is
  a parameter \<open>rnd\<close> of the operations below, the \<open>k\<close>-th call picking the gem with
  index \<open>rnd k mod 6\<close>.
\<close>

record Scene =
  board :: Board
  selectedCell :: "Cell option"
  moveInProgress :: bool
  score :: int
  moves :: int
  isGameOver :: bool
  picked :: nat

definition gems :: "string list" where
  "gems = [''blue'', ''green'', ''orange'', ''red'', ''white'', ''yellow'']"

definition setScore :: "int \<Rightarrow> Scene \<Rightarrow> Scene" where
  "setScore x s = s\<lparr>score := x\<rparr>"

definition setMoves :: "int \<Rightarrow> Scene \<Rightarrow> Scene" where
  "setMoves x s = s\<lparr>moves := x\<rparr>"

text \<open>\<^verbatim>\<open>gameOver\<close>: the flag; the rest of the method builds the game-over screen.\<close>

definition gameOver :: "Scene \<Rightarrow> Scene" where
  "gameOver s = s\<lparr>isGameOver := True\<rparr>"

definition decrementMoves :: "Scene \<Rightarrow> Scene" where
  "decrementMoves s =
     (let s1 = setMoves (moves s - 1) s
      in if moves s1 \<le> 0 then gameOver s1 else s1)"

text \<open>
  \<^verbatim>\<open>refillBoard\<close>: in each column the empty cells at the top, counted from row 0 to
  the first cell that is not empty, get a picked color and lose their power-up.
\<close>

definition refillCell :: "(nat \<Rightarrow> nat) \<Rightarrow> nat \<Rightarrow> nat \<Rightarrow> Board \<times> nat \<Rightarrow> Board \<times> nat" where
  "refillCell rnd col r bk =
     (putCell (fst bk) r col
        ((cellAt (fst bk) r col)\<lparr>color := Some (gems ! (rnd (snd bk) mod length gems)),
                                  empty := False, powerup := None\<rparr>),
      snd bk + 1)"

definition refillColumn :: "nat \<Rightarrow> (nat \<Rightarrow> nat) \<Rightarrow> nat \<Rightarrow> Board \<times> nat \<Rightarrow> Board \<times> nat" where
  "refillColumn n rnd col bk =
     (let numberOfEmptyCells = length (takeWhile (\<lambda>r. empty (cellAt (fst bk) r col)) [0..<n])
      in fold (refillCell rnd col) [0..<numberOfEmptyCells] bk)"

definition refillBoard :: "nat \<Rightarrow> (nat \<Rightarrow> nat) \<Rightarrow> Scene \<Rightarrow> Scene" where
  "refillBoard n rnd s =
     (let bk = fold (refillColumn n rnd) [0..<n] (board s, picked s)
      in s\<lparr>board := fst bk, picked := snd bk\<rparr>)"

text \<open>
  \<^verbatim>\<open>destroyCells\<close>: every cell of \<^verbatim>\<open>getCellsToDestroy\<close>, computed once before the
  first of them is touched, is marked empty by \<^verbatim>\<open>destroyCell\<close>.
\<close>

definition destroyCells :: "nat \<Rightarrow> Board \<Rightarrow> Board" where
  "destroyCells n b = fold (\<lambda>cell bb. markEmpty bb (row cell) (column cell)) (getCellsToDestroy n b) b"

definition computeScore :: "Cell list list \<Rightarrow> nat \<Rightarrow> int" where
  "computeScore chainList cascades =
     sum_list (map (\<lambda>chain. 50 * (int (length chain) + 1 - int explosionThreshold)) chainList)
       * (int cascades + 1)"

text \<open>
  One round of the cascade loops of \<^verbatim>\<open>onPointerDown\<close>, and the loop. The loop after
  a swap counts its rounds in \<open>cascades\<close> and scores with the count; the loop after a
  direct activation scores every round with 0 (\<open>counting\<close> is false there). A loop
  that never ends is the value \<open>None\<close>.
\<close>

definition cascadeRound :: "nat \<Rightarrow> (nat \<Rightarrow> nat) \<Rightarrow> nat \<Rightarrow> Scene \<Rightarrow> Scene" where
  "cascadeRound n rnd cascades s =
     (let chainList = getExplodingChains (board s);
          b1 = createPowerUpsFromChains (board s) chainList;
          b2 = destroyCells n b1;
          s1 = setScore (score s + computeScore chainList cascades) (s\<lparr>board := b2\<rparr>);
          s2 = s1\<lparr>board := makeCellsFall n (board s1)\<rparr>
      in refillBoard n rnd s2)"

partial_function (option) cascadeLoop :: "nat \<Rightarrow> (nat \<Rightarrow> nat) \<Rightarrow> bool \<Rightarrow> nat \<Rightarrow> Scene \<Rightarrow> Scene option" where
  "cascadeLoop n rnd counting cascades s =
     (if boardShouldExplode n (board s)
      then cascadeLoop n rnd counting (cascades + 1)
             (cascadeRound n rnd (if counting then cascades else 0) s)
      else Some s)"

declare cascadeLoop.simps [code]

text \<open>The end of a move: the no-moves check, then \<^verbatim>\<open>moveInProgress = false\<close>.\<close>

definition finishMove :: "nat \<Rightarrow> Scene \<Rightarrow> Scene" where
  "finishMove n s =
     (let w = getWinningMoves n (board s);
          s1 = s\<lparr>board := snd w\<rparr>;
          s2 = (if length (fst w) = 0 then gameOver s1 else s1)
      in s2\<lparr>moveInProgress := False\<rparr>)"

text \<open>
  \<^verbatim>\<open>onPointerDown\<close> for a pointer of the main camera over the cell at row \<open>r\<close>,
  column \<open>c\<close> (\<^verbatim>\<open>getCellAt\<close>). The handler is asynchronous; it is modelled as running
  to its end, a pointer event that arrives meanwhile finding \<open>moveInProgress\<close> set.
  \<open>clickPowerUp\<close> is the branch of a direct click on a power-up, \<open>swapMove\<close> the part
  from the swap on.
\<close>

definition clickPowerUp :: "nat \<Rightarrow> (nat \<Rightarrow> nat) \<Rightarrow> Scene \<Rightarrow> Cell \<Rightarrow> Scene option" where
  "clickPowerUp n rnd s pointedCell =
     (let s1 = s\<lparr>moveInProgress := True\<rparr>;
          s2 = s1\<lparr>board := triggerPowerUp n (board s1) pointedCell\<rparr>;
          s3 = s2\<lparr>board := destroyCells n (board s2)\<rparr>;
          s4 = decrementMoves s3;
          s5 = s4\<lparr>board := makeCellsFall n (board s4)\<rparr>;
          s6 = refillBoard n rnd s5
      in case cascadeLoop n rnd False 0 s6 of
           None \<Rightarrow> None
         | Some s7 \<Rightarrow> Some (finishMove n s7))"

definition swapMove :: "nat \<Rightarrow> (nat \<Rightarrow> nat) \<Rightarrow> Scene \<Rightarrow> Cell \<Rightarrow> Cell \<Rightarrow> Scene option" where
  "swapMove n rnd s firstCell secondCell =
     (let s1 = s\<lparr>moveInProgress := True\<rparr>;
          st = swapAndTrigger n (board s1) firstCell secondCell;
          hasPowerUp = fst st;
          s2 = s1\<lparr>board := snd st\<rparr>;
          s3 = (if hasPowerUp
                then refillBoard n rnd
                       (s2\<lparr>board := makeCellsFall n (destroyCells n (board s2))\<rparr>)
                else s2)
      in if boardShouldExplode n (board s3) \<or> hasPowerUp then
           (case cascadeLoop n rnd True 0 (decrementMoves s3) of
              None \<Rightarrow> None
            | Some s4 \<Rightarrow> Some (finishMove n s4))
         else
           (let sw = swapCells (board s3)
                       (cellAt (board s3) (row secondCell) (column secondCell))
                       (cellAt (board s3) (row firstCell) (column firstCell))
            in Some (s3\<lparr>board := snd (snd sw), moveInProgress := False\<rparr>)))"

definition onPointerDown :: "nat \<Rightarrow> (nat \<Rightarrow> nat) \<Rightarrow> Scene \<Rightarrow> nat \<Rightarrow> nat \<Rightarrow> Scene option" where
  "onPointerDown n rnd s r c =
     (if moveInProgress s then Some s
      else
        (let pointedCell = cellAt (board s) r c
         in if powerup pointedCell \<noteq> None \<and> selectedCell s = None then
              clickPowerUp n rnd s pointedCell
            else
              (case selectedCell s of
                 None \<Rightarrow> Some (s\<lparr>selectedCell := Some pointedCell\<rparr>)
               | Some firstCell \<Rightarrow>
                   (let secondCell = pointedCell;
                        s1 = s\<lparr>selectedCell := None\<rparr>
                    in if firstCell = secondCell then Some s1
                       else if \<not> cellsAreNeighbours firstCell secondCell
                       then Some (s1\<lparr>selectedCell := Some secondCell\<rparr>)
                       else swapMove n rnd s1 firstCell secondCell))))"

text \<open>
  \<^verbatim>\<open>startNewGame\<close> with the board it is given by \<^verbatim>\<open>initBoard\<close> (random, a
  parameter here).
\<close>

definition startNewGame :: "Board \<Rightarrow> Scene \<Rightarrow> Scene" where
  "startNewGame b s = setMoves 30 (setScore 0 (s\<lparr>isGameOver := False, board := b\<rparr>))"

text \<open>
  The game as a sequence of pointer events, each the position of the pointed cell, and
  the number of accepted moves among them: a direct click on a power-up, or a swap of
  neighbours after which the board explodes or which involved a power-up. These are the
  two places where the handler calls \<^verbatim>\<open>decrementMoves\<close>.
\<close>

definition acceptedMove :: "nat \<Rightarrow> (nat \<Rightarrow> nat) \<Rightarrow> Scene \<Rightarrow> nat \<Rightarrow> nat \<Rightarrow> bool" where
  "acceptedMove n rnd s r c \<longleftrightarrow>
     \<not> moveInProgress s \<and>
     (let pointedCell = cellAt (board s) r c
      in (powerup pointedCell \<noteq> None \<and> selectedCell s = None) \<or>
         (case selectedCell s of
            None \<Rightarrow> False
          | Some firstCell \<Rightarrow>
              firstCell \<noteq> pointedCell \<and> cellsAreNeighbours firstCell pointedCell \<and>
              (let st = swapAndTrigger n (board s) firstCell pointedCell;
                   s3 = (if fst st
                         then refillBoard n rnd
                                (s\<lparr>board := makeCellsFall n (destroyCells n (snd st))\<rparr>)
                         else s\<lparr>board := snd st\<rparr>)
               in boardShouldExplode n (board s3) \<or> fst st)))"

fun play :: "nat \<Rightarrow> (nat \<Rightarrow> nat) \<Rightarrow> Scene \<Rightarrow> (nat \<times> nat) list \<Rightarrow> (Scene \<times> nat) option" where
  "play n rnd s [] = Some (s, 0)"
| "play n rnd s ((r, c) # events) =
     (case onPointerDown n rnd s r c of
        None \<Rightarrow> None
      | Some s1 \<Rightarrow>
          (case play n rnd s1 events of
             None \<Rightarrow> None
           | Some (s2, k) \<Rightarrow> Some (s2, (if acceptedMove n rnd s r c then k + 1 else k))))"

section \<open>Concrete boards\<close>

text \<open>
  Boards for the concrete cases below, built as the scene's test boards are: a matrix of
  gem colors, then power-ups placed on single cells (a placed power-up takes its type's
  name as color, as a created one does) and cells marked empty.
\<close>

definition gem :: "nat \<Rightarrow> nat \<Rightarrow> string \<Rightarrow> Cell" where
  "gem r c col = \<lparr>row = r, column = c, color = Some col, empty = False, powerup = None\<rparr>"

definition boardOfColors :: "string list list \<Rightarrow> Board" where
  "boardOfColors css = map (\<lambda>r. map (\<lambda>c. gem r c (css ! r ! c)) [0..<length (css ! r)]) [0..<length css]"

definition spawnPowerup :: "Board \<Rightarrow> PowerUpType \<Rightarrow> nat \<Rightarrow> nat \<Rightarrow> Board" where
  "spawnPowerup b t r c = putCell b r c ((cellAt b r c)\<lparr>color := Some (powerUpName t), powerup := Some t\<rparr>)"

definition plainColors :: "string list list" where
  "plainColors =
    [[''blue'', ''green'', ''orange'', ''red'', ''white'', ''yellow'', ''blue'', ''green''],
     [''orange'', ''red'', ''white'', ''yellow'', ''blue'', ''green'', ''orange'', ''red''],
     [''white'', ''yellow'', ''blue'', ''green'', ''orange'', ''red'', ''white'', ''yellow''],
     [''blue'', ''green'', ''orange'', ''red'', ''white'', ''yellow'', ''blue'', ''green''],
     [''orange'', ''red'', ''white'', ''yellow'', ''blue'', ''green'', ''orange'', ''red''],
     [''white'', ''yellow'', ''blue'', ''green'', ''orange'', ''red'', ''white'', ''yellow''],
     [''blue'', ''green'', ''orange'', ''red'', ''white'', ''yellow'', ''blue'', ''green''],
     [''orange'', ''red'', ''white'', ''yellow'', ''blue'', ''green'', ''orange'', ''red'']]"

definition plainBoard :: Board where
  "plainBoard = boardOfColors plainColors"




definition matchColors :: "string list list" where
  "matchColors =
    [[''blue'', ''green'', ''orange'', ''red'', ''white'', ''white'', ''white'', ''green''],
     [''orange'', ''red'', ''white'', ''yellow'', ''blue'', ''green'', ''orange'', ''red''],
     [''white'', ''yellow'', ''blue'', ''green'', ''orange'', ''red'', ''white'', ''yellow''],
     [''blue'', ''green'', ''orange'', ''red'', ''white'', ''yellow'', ''blue'', ''green''],
     [''orange'', ''red'', ''white'', ''yellow'', ''blue'', ''green'', ''orange'', ''red''],
     [''white'', ''yellow'', ''blue'', ''green'', ''orange'', ''red'', ''white'', ''yellow''],
     [''blue'', ''green'', ''orange'', ''red'', ''white'', ''yellow'', ''blue'', ''green''],
     [''orange'', ''red'', ''white'', ''yellow'', ''blue'', ''green'', ''orange'', ''red'']]"

definition rocketStackBoard :: Board where
  "rocketStackBoard =
     spawnPowerup (spawnPowerup (spawnPowerup (spawnPowerup (boardOfColors matchColors)
       HorizontalRocket 4 2) HorizontalRocket 5 2) HorizontalRocket 6 2) HorizontalRocket 7 2"

definition crossingColors :: "string list list" where
  "crossingColors =
    [[''red'', ''red'', ''red'', ''red'', ''white'', ''yellow'', ''blue'', ''green''],
     [''orange'', ''red'', ''red'', ''yellow'', ''blue'', ''green'', ''orange'', ''red''],
     [''white'', ''yellow'', ''red'', ''green'', ''orange'', ''red'', ''white'', ''yellow''],
     [''blue'', ''green'', ''red'', ''red'', ''white'', ''yellow'', ''blue'', ''green''],
     [''orange'', ''red'', ''white'', ''yellow'', ''blue'', ''green'', ''orange'', ''red''],
     [''white'', ''yellow'', ''blue'', ''green'', ''orange'', ''red'', ''white'', ''yellow''],
     [''blue'', ''green'', ''orange'', ''red'', ''white'', ''yellow'', ''blue'', ''green''],
     [''orange'', ''red'', ''white'', ''yellow'', ''blue'', ''green'', ''orange'', ''red'']]"

definition crossingBoard :: Board where
  "crossingBoard = boardOfColors crossingColors"

definition fallBoard :: Board where
  "fallBoard =
     markEmpty (markEmpty
       (boardOfColors [[''blue'', ''green'', ''orange'', ''red''],
                       [''red'', ''white'', ''yellow'', ''blue''],
                       [''green'', ''orange'', ''red'', ''white''],
                       [''white'', ''yellow'', ''blue'', ''green'']])
       0 0) 2 0"

definition smallBoard :: Board where
  "smallBoard =
     boardOfColors [[''red'', ''blue'', ''red''],
                    [''blue'', ''red'', ''green''],
                    [''green'', ''white'', ''yellow'']]"

definition idleScene :: Scene where
  "idleScene = \<lparr>board = [], selectedCell = None, moveInProgress = False, score = 0,
                 moves = 0, isGameOver = True, picked = 0\<rparr>"

definition fixedPicks :: "nat \<Rightarrow> nat" where
  "fixedPicks k = (if k = 1 then 3 else 2)"

definition stuckColors :: "string list list" where
  "stuckColors =
    [[''blue'', ''green'', ''orange'', ''red'', ''white'', ''yellow'', ''blue'', ''green''],
     [''orange'', ''red'', ''white'', ''yellow'', ''blue'', ''green'', ''orange'', ''red''],
     [''white'', ''yellow'', ''blue'', ''green'', ''orange'', ''red'', ''white'', ''yellow''],
     [''blue'', ''green'', ''orange'', ''red'', ''white'', ''yellow'', ''blue'', ''green''],
     [''orange'', ''red'', ''white'', ''yellow'', ''blue'', ''green'', ''orange'', ''red''],
     [''white'', ''yellow'', ''blue'', ''green'', ''orange'', ''red'', ''white'', ''yellow''],
     [''blue'', ''green'', ''orange'', ''red'', ''white'', ''yellow'', ''blue'', ''green''],
     [''yellow'', ''yellow'', ''red'', ''yellow'', ''blue'', ''green'', ''orange'', ''red'']]"

definition stuckBoard :: Board where
  "stuckBoard = boardOfColors stuckColors"

definition lightBallBoard :: Board where
  "lightBallBoard =
     markEmpty (markEmpty
       (spawnPowerup (spawnPowerup (spawnPowerup plainBoard LightBall 4 4) HorizontalRocket 3 4) VerticalRocket 4 5)
       5 4) 4 3"

text \<open>The lists of a board have the right lengths (proof device).\<close>

definition shape :: "nat \<Rightarrow> Board \<Rightarrow> bool" where
  "shape n b \<longleftrightarrow> length b = n \<and> (\<forall>r<n. length (b ! r) = n)"

section \<open>Boards of the right shape\<close>

lemma wellFormed_iff:
  "wellFormed n b \<longleftrightarrow>
     length b = n \<and> (\<forall>r<n. length (b ! r) = n \<and>
        (\<forall>c<n. row (cellAt b r c) = r \<and> column (cellAt b r c) = c))"
  by (auto simp: wellFormed_def list_all_iff)

lemma wellFormed_shape: "wellFormed n b \<Longrightarrow> shape n b"
  by (simp add: wellFormed_iff shape_def)

lemma wellFormed_row: "wellFormed n b \<Longrightarrow> r < n \<Longrightarrow> c < n \<Longrightarrow> row (cellAt b r c) = r"
  by (simp add: wellFormed_iff)

lemma wellFormed_column: "wellFormed n b \<Longrightarrow> r < n \<Longrightarrow> c < n \<Longrightarrow> column (cellAt b r c) = c"
  by (simp add: wellFormed_iff)

lemma shape_putCell: "shape n b \<Longrightarrow> shape n (putCell b r c x)"
  by (cases "r < length b") (auto simp: shape_def putCell_def nth_list_update)

lemma cellAt_putCell:
  "shape n b \<Longrightarrow> r < n \<Longrightarrow> c < n \<Longrightarrow>
   cellAt (putCell b r c x) i j = (if i = r \<and> j = c then x else cellAt b i j)"
  by (auto simp: shape_def putCell_def cellAt_def nth_list_update)

lemma board_eqI:
  assumes "shape n b" "shape n b'" "\<And>r c. r < n \<Longrightarrow> c < n \<Longrightarrow> cellAt b r c = cellAt b' r c"
  shows "b = b'"
proof (rule nth_equalityI)
  show "length b = length b'" using assms by (simp add: shape_def)
next
  fix r assume "r < length b"
  then have r: "r < n" using assms by (simp add: shape_def)
  show "b ! r = b' ! r"
  proof (rule nth_equalityI)
    show "length (b ! r) = length (b' ! r)" using assms r by (simp add: shape_def)
  next
    fix c assume "c < length (b ! r)"
    then have "c < n" using assms r by (simp add: shape_def)
    then show "b ! r ! c = b' ! r ! c" using assms(3)[OF r] by (simp add: cellAt_def)
  qed
qed








section \<open>What triggerPowerUp does to the board\<close>

lemma wellFormedI:
  "shape n b \<Longrightarrow> (\<And>r c. r < n \<Longrightarrow> c < n \<Longrightarrow> row (cellAt b r c) = r \<and> column (cellAt b r c) = c)
   \<Longrightarrow> wellFormed n b"
  by (simp add: wellFormed_iff shape_def)




lemma getNeighbors_consumed:
  assumes "shape n b" "row cell < n" "column cell < n"
  shows "getNeighbors n (putCell b (row cell) (column cell) y) (cell\<lparr>powerup := p, empty := e\<rparr>)
         = getNeighbors n b cell"
  using assms by (simp add: getNeighbors_def cellAt_putCell [OF assms(1)])

lemma getAdjacentGemColor_consumed:
  assumes "shape n b" "row cell < n" "column cell < n"
  shows "getAdjacentGemColor n (putCell b (row cell) (column cell) y) (cell\<lparr>powerup := p, empty := e\<rparr>)
         = getAdjacentGemColor n b cell"
  by (simp add: getAdjacentGemColor_def getNeighbors_consumed [OF assms])



lemma triggerPowerUp_lightBall_unfold:
  assumes "wellFormed n b" "r < n" "c < n" "powerup (cellAt b r c) = Some LightBall"
  shows "triggerPowerUp n b (cellAt b r c) =
     (case getAdjacentGemColor n b (cellAt b r c) of
        None \<Rightarrow> putCell b r c ((cellAt b r c)\<lparr>powerup := None, empty := True\<rparr>)
      | Some targetColor \<Rightarrow>
          fold (\<lambda>r bb. fold (\<lambda>col bbb. if color (cellAt bbb r col) = Some targetColor
                                         then markEmpty bbb r col else bbb) [0..<n] bb)
               [0..<n] (putCell b r c ((cellAt b r c)\<lparr>powerup := None, empty := True\<rparr>)))"
proof -
  let ?cell = "cellAt b r c"
  let ?cell' = "?cell\<lparr>powerup := None, empty := True\<rparr>"
  have sh: "shape n b" using assms(1) by (rule wellFormed_shape)
  have rc: "row ?cell = r" "column ?cell = c"
    using assms by (simp_all add: wellFormed_row wellFormed_column)
  have "getAdjacentGemColor n (putCell b (row ?cell) (column ?cell) ?cell') ?cell' = getAdjacentGemColor n b ?cell"
    by (rule getAdjacentGemColor_consumed [OF sh]) (simp_all add: rc assms)
  then have adj: "getAdjacentGemColor n (putCell b r c ?cell') ?cell' = getAdjacentGemColor n b ?cell"
    by (simp only: rc)
  show ?thesis
    unfolding triggerPowerUp_def Let_def
    by (simp only: assms(4) option.case PowerUpType.case adj rc)
qed


section \<open>The concrete boards are well formed\<close>

lemma wellFormed_boardOfColors:
  assumes "length css = n" "\<forall>line \<in> set css. length line = n"
  shows "wellFormed n (boardOfColors css)"
  using assms by (auto simp: wellFormed_iff boardOfColors_def cellAt_def gem_def)

lemma wellFormed_putCell:
  assumes "wellFormed n b" "r < n" "c < n" "row x = r" "column x = c"
  shows "wellFormed n (putCell b r c x)"
proof (rule wellFormedI)
  show "shape n (putCell b r c x)" using assms(1) by (simp add: shape_putCell wellFormed_shape)
  fix i j assume "i < n" "j < n"
  then show "row (cellAt (putCell b r c x) i j) = i \<and> column (cellAt (putCell b r c x) i j) = j"
    using assms by (simp add: cellAt_putCell [OF wellFormed_shape] wellFormed_row wellFormed_column)
qed

lemma wellFormed_spawnPowerup:
  "wellFormed n b \<Longrightarrow> r < n \<Longrightarrow> c < n \<Longrightarrow> wellFormed n (spawnPowerup b t r c)"
  unfolding spawnPowerup_def
  by (rule wellFormed_putCell) (simp_all add: wellFormed_row wellFormed_column)

lemma wellFormed_plainBoard: "wellFormed 8 plainBoard"
  unfolding plainBoard_def
  by (rule wellFormed_boardOfColors) (simp_all add: plainColors_def)


lemma wellFormed_markEmpty:
  "wellFormed n b \<Longrightarrow> r < n \<Longrightarrow> c < n \<Longrightarrow> wellFormed n (markEmpty b r c)"
  unfolding markEmpty_def
  by (rule wellFormed_putCell) (simp_all add: wellFormed_row wellFormed_column)

lemma wellFormed_lightBallBoard: "wellFormed 8 lightBallBoard"
  unfolding lightBallBoard_def
  by (intro wellFormed_markEmpty wellFormed_spawnPowerup wellFormed_plainBoard) simp_all

section \<open>Power-up activation\<close>

text \<open>
  Claim C10. A light-ball whose in-bounds orthogonal neighbours are all empty or
  power-ups finds no target color: \<^verbatim>\<open>triggerPowerUp\<close> on it clears its power-up,
  marks it empty and changes no other cell of the board.
\<close>

theorem lightBall_without_target_consumes_only_itself:
  assumes "wellFormed n b" "r < n" "c < n" "powerup (cellAt b r c) = Some LightBall"
    and "0 < r \<longrightarrow> empty (cellAt b (r - 1) c) \<or> powerup (cellAt b (r - 1) c) \<noteq> None"
    and "r + 1 < n \<longrightarrow> empty (cellAt b (r + 1) c) \<or> powerup (cellAt b (r + 1) c) \<noteq> None"
    and "0 < c \<longrightarrow> empty (cellAt b r (c - 1)) \<or> powerup (cellAt b r (c - 1)) \<noteq> None"
    and "c + 1 < n \<longrightarrow> empty (cellAt b r (c + 1)) \<or> powerup (cellAt b r (c + 1)) \<noteq> None"
  shows "triggerPowerUp n b (cellAt b r c) =
           putCell b r c ((cellAt b r c)\<lparr>powerup := None, empty := True\<rparr>) \<and>
         empty (cellAt (triggerPowerUp n b (cellAt b r c)) r c) \<and>
         (\<forall>i<n. \<forall>j<n. (i, j) \<noteq> (r, c) \<longrightarrow>
            cellAt (triggerPowerUp n b (cellAt b r c)) i j = cellAt b i j)"
proof -
  let ?cell = "cellAt b r c"
  have sh: "shape n b" using assms(1) by (rule wellFormed_shape)
  have rc: "row ?cell = r" "column ?cell = c"
    using assms by (simp_all add: wellFormed_row wellFormed_column)
  have "find (\<lambda>neighbor. \<not> empty neighbor \<and> powerup neighbor = None \<and> truthyColor (color neighbor))
          (getNeighbors n b ?cell) = None"
    using assms(5-8) by (auto simp: find_None_iff getNeighbors_def rc)
  then have none: "getAdjacentGemColor n b ?cell = None"
    by (simp add: getAdjacentGemColor_def)
  have eq: "triggerPowerUp n b ?cell = putCell b r c (?cell\<lparr>powerup := None, empty := True\<rparr>)"
    using triggerPowerUp_lightBall_unfold [OF assms(1-4)] none by simp
  show ?thesis
    using assms(2,3) by (simp add: eq cellAt_putCell [OF sh])
qed

text \<open>
  The light-ball at row 4, column 4 of \<open>lightBallBoard\<close>: a rocket above and to the
  right, empty cells below and to the left.
\<close>

theorem lightBall_without_target_witness:
  "wellFormed 8 lightBallBoard \<and> powerup (cellAt lightBallBoard 4 4) = Some LightBall \<and>
   powerup (cellAt lightBallBoard 3 4) \<noteq> None \<and> empty (cellAt lightBallBoard 5 4) \<and>
   empty (cellAt lightBallBoard 4 3) \<and> powerup (cellAt lightBallBoard 4 5) \<noteq> None \<and>
   triggerPowerUp 8 lightBallBoard (cellAt lightBallBoard 4 4) =
     putCell lightBallBoard 4 4 ((cellAt lightBallBoard 4 4)\<lparr>powerup := None, empty := True\<rparr>)"
proof -
  have h: "powerup (cellAt lightBallBoard 4 4) = Some LightBall"
    "powerup (cellAt lightBallBoard 3 4) \<noteq> None" "empty (cellAt lightBallBoard 5 4)"
    "empty (cellAt lightBallBoard 4 3)" "powerup (cellAt lightBallBoard 4 5) \<noteq> None"
    by code_simp+
  show ?thesis
    using lightBall_without_target_consumes_only_itself [OF wellFormed_lightBallBoard, of 4 4] h
      wellFormed_lightBallBoard
    by simp
qed






section \<open>A swap and its undoing\<close>

lemma swapCells_cells:
  assumes "wellFormed n b" "r1 < n" "c1 < n" "r2 < n" "c2 < n"
  shows "fst (swapCells b (cellAt b r1 c1) (cellAt b r2 c2)) = (cellAt b r1 c1)\<lparr>row := r2, column := c2\<rparr>"
    and "fst (snd (swapCells b (cellAt b r1 c1) (cellAt b r2 c2))) = (cellAt b r2 c2)\<lparr>row := r1, column := c1\<rparr>"
  using assms by (simp_all add: swapCells_def Let_def wellFormed_row wellFormed_column)

lemma swapCells_board:
  assumes "wellFormed n b" "r1 < n" "c1 < n" "r2 < n" "c2 < n"
  shows "shape n (snd (snd (swapCells b (cellAt b r1 c1) (cellAt b r2 c2))))"
    and "cellAt (snd (snd (swapCells b (cellAt b r1 c1) (cellAt b r2 c2)))) i j =
           (if i = r1 \<and> j = c1 then (cellAt b r2 c2)\<lparr>row := r1, column := c1\<rparr>
            else if i = r2 \<and> j = c2 then (cellAt b r1 c1)\<lparr>row := r2, column := c2\<rparr>
            else cellAt b i j)"
proof -
  have sh: "shape n b" using assms(1) by (rule wellFormed_shape)
  have eq: "snd (snd (swapCells b (cellAt b r1 c1) (cellAt b r2 c2))) =
            putCell (putCell b r2 c2 ((cellAt b r1 c1)\<lparr>row := r2, column := c2\<rparr>)) r1 c1
              ((cellAt b r2 c2)\<lparr>row := r1, column := c1\<rparr>)"
    using assms by (simp add: swapCells_def Let_def wellFormed_row wellFormed_column)
  show "shape n (snd (snd (swapCells b (cellAt b r1 c1) (cellAt b r2 c2))))"
    by (simp add: eq shape_putCell sh)
  show "cellAt (snd (snd (swapCells b (cellAt b r1 c1) (cellAt b r2 c2)))) i j =
           (if i = r1 \<and> j = c1 then (cellAt b r2 c2)\<lparr>row := r1, column := c1\<rparr>
            else if i = r2 \<and> j = c2 then (cellAt b r1 c1)\<lparr>row := r2, column := c2\<rparr>
            else cellAt b i j)"
    using assms(2-5) by (simp add: eq cellAt_putCell [OF shape_putCell [OF sh]] cellAt_putCell [OF sh])
qed

lemma swapCells_wellFormed:
  assumes "wellFormed n b" "r1 < n" "c1 < n" "r2 < n" "c2 < n"
  shows "wellFormed n (snd (snd (swapCells b (cellAt b r1 c1) (cellAt b r2 c2))))"
proof (rule wellFormedI)
  show "shape n (snd (snd (swapCells b (cellAt b r1 c1) (cellAt b r2 c2))))"
    by (rule swapCells_board(1) [OF assms])
  fix i j assume "i < n" "j < n"
  then show "row (cellAt (snd (snd (swapCells b (cellAt b r1 c1) (cellAt b r2 c2)))) i j) = i \<and>
             column (cellAt (snd (snd (swapCells b (cellAt b r1 c1) (cellAt b r2 c2)))) i j) = j"
    using assms(1) by (simp add: swapCells_board(2) [OF assms] wellFormed_row wellFormed_column)
qed

text \<open>A second call on the same two objects undoes the first.\<close>

lemma swapCells_twice:
  assumes "wellFormed n b" "r1 < n" "c1 < n" "r2 < n" "c2 < n" "(r1, c1) \<noteq> (r2, c2)"
  shows "swapCells (snd (snd (swapCells b (cellAt b r1 c1) (cellAt b r2 c2))))
                   (fst (swapCells b (cellAt b r1 c1) (cellAt b r2 c2)))
                   (fst (snd (swapCells b (cellAt b r1 c1) (cellAt b r2 c2))))
         = (cellAt b r1 c1, cellAt b r2 c2, b)"
proof -
  let ?s = "swapCells b (cellAt b r1 c1) (cellAt b r2 c2)"
  let ?b1 = "snd (snd ?s)"
  have w1: "wellFormed n ?b1" by (rule swapCells_wellFormed [OF assms(1-5)])
  have f: "fst ?s = cellAt ?b1 r2 c2" and s: "fst (snd ?s) = cellAt ?b1 r1 c1"
    using assms(6) by (auto simp: swapCells_cells [OF assms(1-5)] swapCells_board(2) [OF assms(1-5)])
  have back1: "(cellAt ?b1 r2 c2)\<lparr>row := r1, column := c1\<rparr> = cellAt b r1 c1"
    using assms by (auto simp: swapCells_board(2) [OF assms(1-5)] wellFormed_row wellFormed_column)
  have back2: "(cellAt ?b1 r1 c1)\<lparr>row := r2, column := c2\<rparr> = cellAt b r2 c2"
    using assms by (auto simp: swapCells_board(2) [OF assms(1-5)] wellFormed_row wellFormed_column)
  have "snd (snd (swapCells ?b1 (cellAt ?b1 r2 c2) (cellAt ?b1 r1 c1))) = b"
  proof (rule board_eqI [where n = n])
    show "shape n (snd (snd (swapCells ?b1 (cellAt ?b1 r2 c2) (cellAt ?b1 r1 c1))))"
      by (rule swapCells_board(1) [OF w1 assms(4,5,2,3)])
    show "shape n b" using assms(1) by (rule wellFormed_shape)
    fix i j assume "i < n" "j < n"
    show "cellAt (snd (snd (swapCells ?b1 (cellAt ?b1 r2 c2) (cellAt ?b1 r1 c1)))) i j = cellAt b i j"
      unfolding swapCells_board(2) [OF w1 assms(4,5,2,3)] back1 back2
      using assms(6) by (auto simp: swapCells_board(2) [OF assms(1-5)])
  qed
  moreover have "fst (swapCells ?b1 (cellAt ?b1 r2 c2) (cellAt ?b1 r1 c1)) = cellAt b r1 c1"
    by (simp add: swapCells_cells(1) [OF w1 assms(4,5,2,3)] back1)
  moreover have "fst (snd (swapCells ?b1 (cellAt ?b1 r2 c2) (cellAt ?b1 r1 c1))) = cellAt b r2 c2"
    by (simp add: swapCells_cells(2) [OF w1 assms(4,5,2,3)] back2)
  ultimately show ?thesis
    unfolding f s by (metis prod.collapse)
qed

lemma tryMoves_restores:
  assumes "wellFormed n b" "r + 1 < n" "c + 1 < n"
  shows "tryMoves n r c (acc, b) =
          (acc @ (if boardShouldExplode n (snd (snd (swapCells b (cellAt b r c) (cellAt b r (c + 1)))))
                  then [(cellAt b r c, cellAt b r (c + 1))] else [])
               @ (if boardShouldExplode n (snd (snd (swapCells b (cellAt b r c) (cellAt b (r + 1) c))))
                  then [(cellAt b r c, cellAt b (r + 1) c)] else []),
           b)"
proof -
  have r: "r < n" and c: "c < n" using assms by simp_all
  have t1: "swapCells (snd (snd (swapCells b (cellAt b r c) (cellAt b r (c + 1)))))
                   (fst (swapCells b (cellAt b r c) (cellAt b r (c + 1))))
                   (fst (snd (swapCells b (cellAt b r c) (cellAt b r (c + 1)))))
         = (cellAt b r c, cellAt b r (c + 1), b)"
    by (rule swapCells_twice [OF assms(1) r c r assms(3)]) simp
  have t2: "swapCells (snd (snd (swapCells b (cellAt b r c) (cellAt b (r + 1) c))))
                   (fst (swapCells b (cellAt b r c) (cellAt b (r + 1) c)))
                   (fst (snd (swapCells b (cellAt b r c) (cellAt b (r + 1) c))))
         = (cellAt b r c, cellAt b (r + 1) c, b)"
    by (rule swapCells_twice [OF assms(1) r c assms(2) c]) simp
  show ?thesis
    by (simp only: tryMoves_def Let_def fst_conv snd_conv t1 t2) simp
qed

lemma tryMoves_row:
  assumes "wellFormed n b" "r + 1 < n" "m \<le> n - 1"
  shows "snd (fold (\<lambda>c acc'. tryMoves n r c acc') [0..<m] (acc, b)) = b"
  using assms(3)
proof (induction m)
  case 0
  then show ?case by simp
next
  case (Suc m)
  then have IH: "snd (fold (\<lambda>c acc'. tryMoves n r c acc') [0..<m] (acc, b)) = b" by simp
  have m: "m + 1 < n" using Suc.prems by simp
  obtain acc1 where f: "fold (\<lambda>c acc'. tryMoves n r c acc') [0..<m] (acc, b) = (acc1, b)"
    using IH by (metis prod.collapse)
  have "fold (\<lambda>c acc'. tryMoves n r c acc') [0..<Suc m] (acc, b) =
        tryMoves n r m (fold (\<lambda>c acc'. tryMoves n r c acc') [0..<m] (acc, b))"
    by simp
  also have "\<dots> = tryMoves n r m (acc1, b)" by (simp only: f)
  finally show ?case
    by (simp only: tryMoves_restores [OF assms(1,2) m] snd_conv)
qed

lemma getWinningMoves_rows:
  assumes "wellFormed n b" "m \<le> n - 1"
  shows "snd (fold (\<lambda>r acc. fold (\<lambda>c acc'. tryMoves n r c acc') [0..<n - 1] acc) [0..<m] (acc, b)) = b"
  using assms(2)
proof (induction m)
  case 0
  then show ?case by simp
next
  case (Suc m)
  let ?g = "\<lambda>r acc. fold (\<lambda>c acc'. tryMoves n r c acc') [0..<n - 1] acc"
  from Suc have IH: "snd (fold ?g [0..<m] (acc, b)) = b" by simp
  have m: "m + 1 < n" using Suc.prems by simp
  obtain acc1 where f: "fold ?g [0..<m] (acc, b) = (acc1, b)"
    using IH by (metis prod.collapse)
  have "fold ?g [0..<Suc m] (acc, b) = ?g m (fold ?g [0..<m] (acc, b))"
    by simp
  also have "\<dots> = ?g m (acc1, b)" by (simp only: f)
  finally show ?case
    using tryMoves_row [OF assms(1) m order_refl, of acc1] by (simp only:)
qed

text \<open>
  Claim C8. \<^verbatim>\<open>getWinningMoves\<close> leaves the board as it found it: every trial swap is
  undone, so the board after the call equals the board before it, cell by cell and field
  by field.
\<close>

theorem getWinningMoves_leaves_board_unchanged:
  assumes "wellFormed n b"
  shows "snd (getWinningMoves n b) = b"
  unfolding getWinningMoves_def
  by (rule getWinningMoves_rows [OF assms order_refl])

theorem getWinningMoves_leaves_board_unchanged_witness:
  "wellFormed 8 plainBoard \<and> snd (getWinningMoves 8 plainBoard) = plainBoard"
  using getWinningMoves_leaves_board_unchanged [OF wellFormed_plainBoard] wellFormed_plainBoard
  by simp

section \<open>Swapping two power-ups\<close>









section \<open>Chains and the power-ups made from them\<close>

text \<open>
  Claim C4 (no chain of \<^verbatim>\<open>getExplodingChains\<close> contains a power-up cell).
  \<^verbatim>\<open>getExplodingChainsOnLine\<close> compares colors only, and power-ups of one type share
  their color. On \<open>rocketStackBoard\<close>, which has a match of three white gems in row 0,
  the four horizontal rockets stacked in column 2 are returned as a chain, and
  \<^verbatim>\<open>createPowerUpsFromChains\<close> then marks the rocket at row 4 empty.
\<close>

theorem powerups_form_a_chain:
  "boardShouldExplode 8 rocketStackBoard \<and>
   getExplodingChains rocketStackBoard =
     [[cellAt rocketStackBoard 0 4, cellAt rocketStackBoard 0 5, cellAt rocketStackBoard 0 6],
      [cellAt rocketStackBoard 4 2, cellAt rocketStackBoard 5 2,
       cellAt rocketStackBoard 6 2, cellAt rocketStackBoard 7 2]] \<and>
   powerup (cellAt rocketStackBoard 4 2) = Some HorizontalRocket \<and>
   powerup (cellAt rocketStackBoard 5 2) = Some HorizontalRocket \<and>
   powerup (cellAt rocketStackBoard 6 2) = Some HorizontalRocket \<and>
   powerup (cellAt rocketStackBoard 7 2) = Some HorizontalRocket \<and>
   empty (cellAt (createPowerUpsFromChains rocketStackBoard (getExplodingChains rocketStackBoard)) 4 2)"
  by code_simp

text \<open>
  Claim C7 (the anchor cell of a chain is never marked empty). On \<open>crossingBoard\<close> a
  row chain and a column chain of four red gems cross in the row chain's anchor (row 0,
  column 2): the row chain makes it a horizontal rocket, the column chain, processed
  next, marks it empty.
\<close>

theorem crossing_chain_empties_anchor:
  "getExplodingChains crossingBoard =
     [[cellAt crossingBoard 0 0, cellAt crossingBoard 0 1, cellAt crossingBoard 0 2, cellAt crossingBoard 0 3],
      [cellAt crossingBoard 0 2, cellAt crossingBoard 1 2, cellAt crossingBoard 2 2, cellAt crossingBoard 3 2]] \<and>
   \<not> empty (cellAt crossingBoard 0 2) \<and>
   powerup (cellAt (createPowerUpsFromChains crossingBoard (getExplodingChains crossingBoard)) 0 2)
     = Some HorizontalRocket \<and>
   empty (cellAt (createPowerUpsFromChains crossingBoard (getExplodingChains crossingBoard)) 0 2)"
  by code_simp

section \<open>Gravity\<close>

lemma find_append_none:
  "find P xs = None \<Longrightarrow> find P (xs @ ys) = find P ys"
  by (induction xs) (auto split: if_splits)

lemma find_lowest_compact:
  assumes "m \<le> k" "k \<le> n"
    and "\<And>i. m \<le> i \<Longrightarrow> i < k \<Longrightarrow> P (f i)"
    and "\<And>i. k \<le> i \<Longrightarrow> i < n \<Longrightarrow> \<not> P (f i)"
  shows "find P (map f (rev [m..<n])) = (if m < k then Some (f (k - 1)) else None)"
proof -
  have split: "[m..<n] = [m..<k] @ [k..<n]"
    using assms(1,2) by (metis le_add_diff_inverse upt_add_eq_append)
  have none: "find P (map f (rev [k..<n])) = None"
    using assms(4) by (auto simp: find_None_iff)
  have "find P (map f (rev [m..<n])) = find P (map f (rev [m..<k]))"
    unfolding split by (simp add: find_append_none [OF none])
  also have "\<dots> = (if m < k then Some (f (k - 1)) else None)"
  proof (cases "m < k")
    case True
    then have "[m..<k] = [m..<k - 1] @ [k - 1]"
      by (metis Suc_pred' less_imp_Suc_add less_Suc_eq_le upt_Suc_append zero_less_Suc le_add1 add_Suc_right diff_Suc_1)
    moreover have "P (f (k - 1))" using True assms(3) [of "k - 1"] by simp
    ultimately show ?thesis using True by simp
  next
    case False
    then show ?thesis by simp
  qed
  finally show ?thesis .
qed

lemma rev_upt_step: "m < n \<Longrightarrow> rev [m..<n] = rev [Suc m..<n] @ [m]"
  by (simp add: upt_conv_Cons)

text \<open>
  The inner loop of makeCellsFall on column \<open>c\<close>, after the rows \<open>n - 1\<close> down to
  \<open>m\<close>: the rows from \<open>m\<close> on hold a block of empty cells and then, in their order,
  the cells of these rows that were not empty.
\<close>

lemma fall_column_invariant:
  assumes "wellFormed n b" "c < n" "m \<le> n"
  shows "wellFormed n (fold (fallStep n c) (rev [m..<n]) b) \<and>
         (\<forall>i<n. \<forall>j<n. j \<noteq> c \<longrightarrow> cellAt (fold (fallStep n c) (rev [m..<n]) b) i j = cellAt b i j) \<and>
         (\<forall>i<m. cellAt (fold (fallStep n c) (rev [m..<n]) b) i c = cellAt b i c) \<and>
         (\<exists>k. m \<le> k \<and> k \<le> n \<and>
            (\<forall>i. m \<le> i \<and> i < k \<longrightarrow> empty (cellAt (fold (fallStep n c) (rev [m..<n]) b) i c)) \<and>
            length (filter (\<lambda>x. \<not> empty x) (map (\<lambda>i. cellAt b i c) [m..<n])) = n - k \<and>
            (\<forall>i. k \<le> i \<and> i < n \<longrightarrow>
               cellAt (fold (fallStep n c) (rev [m..<n]) b) i c =
                 (filter (\<lambda>x. \<not> empty x) (map (\<lambda>i. cellAt b i c) [m..<n]) ! (i - k))\<lparr>row := i\<rparr>))"
  using assms(3)
proof (induction m rule: inc_induct)
  case base
  show ?case using assms(1) by (auto intro!: exI [of _ n])
next
  case (step m)
  define b1 where "b1 = fold (fallStep n c) (rev [Suc m..<n]) b"
  define F where "F = filter (\<lambda>x. \<not> empty x) (map (\<lambda>i. cellAt b i c) [Suc m..<n])"
  from step.IH obtain k where
    w1: "wellFormed n b1" and
    oth: "\<And>i j. i < n \<Longrightarrow> j < n \<Longrightarrow> j \<noteq> c \<Longrightarrow> cellAt b1 i j = cellAt b i j" and
    above: "\<And>i. i < Suc m \<Longrightarrow> cellAt b1 i c = cellAt b i c" and
    k: "Suc m \<le> k" "k \<le> n" and
    emp: "\<And>i. Suc m \<le> i \<Longrightarrow> i < k \<Longrightarrow> empty (cellAt b1 i c)" and
    len: "length F = n - k" and
    low: "\<And>i. k \<le> i \<Longrightarrow> i < n \<Longrightarrow> cellAt b1 i c = (F ! (i - k))\<lparr>row := i\<rparr>"
    unfolding b1_def F_def by blast
  define x where "x = cellAt b m c"
  have mn: "m < n" using step.hyps by simp
  have x1: "cellAt b1 m c = x" unfolding x_def by (rule above) simp
  have xpos: "row x = m" "column x = c"
    using assms(1,2) mn by (simp_all add: x_def wellFormed_row wellFormed_column)
  have nonempty: "\<not> empty (cellAt b1 i c)" if "k \<le> i" "i < n" for i
  proof -
    have "i - k < length F" using that len by simp
    then have "F ! (i - k) \<in> set F" by (rule nth_mem)
    then have "\<not> empty (F ! (i - k))" unfolding F_def by simp
    then show ?thesis using low [OF that] by simp
  qed
  have lowest: "getLowestEmptyCellBelow n b1 x = (if Suc m < k then Some (cellAt b1 (k - 1) c) else None)"
    unfolding getLowestEmptyCellBelow_def xpos
    using find_lowest_compact [of "Suc m" k n empty "\<lambda>r. cellAt b1 r c", OF k emp nonempty]
    by simp
  have fold_eq: "fold (fallStep n c) (rev [m..<n]) b = fallStep n c m b1"
    by (simp add: rev_upt_step [OF mn] b1_def)
  have Fm: "filter (\<lambda>x. \<not> empty x) (map (\<lambda>i. cellAt b i c) [m..<n]) = (if empty x then F else x # F)"
    by (simp add: upt_conv_Cons [OF mn] F_def x_def)
  show ?case
  proof (cases "empty x \<or> \<not> Suc m < k")
    case True
    then have same: "fallStep n c m b1 = b1"
      by (auto simp: fallStep_def x1 lowest)
    show ?thesis
    proof (cases "empty x")
      case True
      have "m \<le> k \<and> k \<le> n \<and>
            (\<forall>i. m \<le> i \<and> i < k \<longrightarrow> empty (cellAt b1 i c)) \<and>
            length F = n - k \<and>
            (\<forall>i. k \<le> i \<and> i < n \<longrightarrow> cellAt b1 i c = (F ! (i - k))\<lparr>row := i\<rparr>)"
      proof (intro conjI allI impI)
        fix i assume i: "m \<le> i \<and> i < k"
        show "empty (cellAt b1 i c)"
        proof (cases "i = m")
          case True
          then show ?thesis using \<open>empty x\<close> x1 by simp
        next
          case False
          then have "Suc m \<le> i" using i by auto
          then show ?thesis using emp i by simp
        qed
      qed (use k len low in simp_all)
      then show ?thesis
        unfolding fold_eq same Fm using w1 oth above True by auto
    next
      case False
      with \<open>empty x \<or> \<not> Suc m < k\<close> k have km: "k = Suc m" by simp
      have "m \<le> m \<and> m \<le> n \<and>
            (\<forall>i. m \<le> i \<and> i < m \<longrightarrow> empty (cellAt b1 i c)) \<and>
            length (x # F) = n - m \<and>
            (\<forall>i. m \<le> i \<and> i < n \<longrightarrow> cellAt b1 i c = ((x # F) ! (i - m))\<lparr>row := i\<rparr>)"
      proof (intro conjI allI impI)
        show "length (x # F) = n - m" using len km mn by simp
        fix i assume i: "m \<le> i \<and> i < n"
        show "cellAt b1 i c = ((x # F) ! (i - m))\<lparr>row := i\<rparr>"
        proof (cases "i = m")
          case True
          then show ?thesis using x1 xpos by simp
        next
          case False
          then have "k \<le> i" using i km by auto
          moreover have "i - m = Suc (i - k)" using False i km by arith
          then have "(x # F) ! (i - m) = F ! (i - k)" by simp
          ultimately show ?thesis using low i by simp
        qed
      qed (use mn in auto)
      then show ?thesis
        unfolding fold_eq same Fm using w1 oth above False by auto
    qed
  next
    case False
    then have ne: "\<not> empty x" and mk: "Suc m < k" by simp_all
    define e where "e = cellAt b1 (k - 1) c"
    define b2 where "b2 = snd (snd (swapCells b1 (cellAt b1 m c) (cellAt b1 (k - 1) c)))"
    have k1: "k - 1 < n" using k mk by simp
    have step_eq: "fallStep n c m b1 = b2"
      by (simp add: fallStep_def x1 lowest mk ne b2_def)
    note sb = swapCells_board(2) [OF w1 mn assms(2) k1 assms(2), folded b2_def]
    have w2: "wellFormed n b2"
      unfolding b2_def by (rule swapCells_wellFormed [OF w1 mn assms(2) k1 assms(2)])
    have e_empty: "empty (cellAt b1 (k - 1) c)" using emp [of "k - 1"] mk by simp
    have "m \<le> k - 1 \<and> k - 1 \<le> n \<and>
          (\<forall>i. m \<le> i \<and> i < k - 1 \<longrightarrow> empty (cellAt b2 i c)) \<and>
          length (x # F) = n - (k - 1) \<and>
          (\<forall>i. k - 1 \<le> i \<and> i < n \<longrightarrow> cellAt b2 i c = ((x # F) ! (i - (k - 1)))\<lparr>row := i\<rparr>)"
    proof (intro conjI allI impI)
      show "m \<le> k - 1" using mk by simp
      show "k - 1 \<le> n" using k by simp
      show "length (x # F) = n - (k - 1)" using len k mk by simp
    next
      fix i assume i: "m \<le> i \<and> i < k - 1"
      show "empty (cellAt b2 i c)"
      proof (cases "i = m")
        case True
        then show ?thesis using e_empty mk by (simp add: sb)
      next
        case False
        then have "Suc m \<le> i" "i < k" using i by auto
        then show ?thesis using emp i False by (simp add: sb)
      qed
    next
      fix i assume i: "k - 1 \<le> i \<and> i < n"
      show "cellAt b2 i c = ((x # F) ! (i - (k - 1)))\<lparr>row := i\<rparr>"
      proof (cases "i = k - 1")
        case True
        then show ?thesis using mk x1 xpos by (simp add: sb)
      next
        case False
        then have ki: "k \<le> i" using i by auto
        have "i - (k - 1) = Suc (i - k)" using ki mk by arith
        then have "(x # F) ! (i - (k - 1)) = F ! (i - k)" by simp
        moreover have "i \<noteq> m" using ki mk by simp
        ultimately show ?thesis using low [OF ki] i False by (simp add: sb)
      qed
    qed
    moreover have "\<forall>i<n. \<forall>j<n. j \<noteq> c \<longrightarrow> cellAt b2 i j = cellAt b i j"
      using oth by (simp add: sb)
    moreover have "\<forall>i<m. cellAt b2 i c = cellAt b i c"
      using above mk by (simp add: sb)
    ultimately show ?thesis
      unfolding fold_eq step_eq Fm using w2 ne by auto
  qed
qed

lemma makeCellsFall_columns:
  assumes "wellFormed n b" "m \<le> n"
  shows "wellFormed n (fold (\<lambda>col bb. fold (fallStep n col) (rev [0..<n]) bb) [0..<m] b) \<and>
         (\<forall>c. m \<le> c \<and> c < n \<longrightarrow>
            (\<forall>i<n. cellAt (fold (\<lambda>col bb. fold (fallStep n col) (rev [0..<n]) bb) [0..<m] b) i c = cellAt b i c)) \<and>
         (\<forall>c<m. \<exists>k\<le>n.
            (\<forall>i<k. empty (cellAt (fold (\<lambda>col bb. fold (fallStep n col) (rev [0..<n]) bb) [0..<m] b) i c)) \<and>
            length (filter (\<lambda>x. \<not> empty x) (map (\<lambda>i. cellAt b i c) [0..<n])) = n - k \<and>
            (\<forall>i. k \<le> i \<and> i < n \<longrightarrow>
               cellAt (fold (\<lambda>col bb. fold (fallStep n col) (rev [0..<n]) bb) [0..<m] b) i c =
                 (filter (\<lambda>x. \<not> empty x) (map (\<lambda>i. cellAt b i c) [0..<n]) ! (i - k))\<lparr>row := i\<rparr>))"
  using assms(2)
proof (induction m)
  case 0
  then show ?case using assms(1) by simp
next
  case (Suc m)
  let ?g = "\<lambda>col bb. fold (fallStep n col) (rev [0..<n]) bb"
  define b1 where "b1 = fold ?g [0..<m] b"
  define b2 where "b2 = fold (fallStep n m) (rev [0..<n]) b1"
  have mn: "m < n" using Suc.prems by simp
  from Suc have IH:
    "wellFormed n b1"
    "\<And>c i. m \<le> c \<Longrightarrow> c < n \<Longrightarrow> i < n \<Longrightarrow> cellAt b1 i c = cellAt b i c"
    "\<And>c. c < m \<Longrightarrow> \<exists>k\<le>n.
            (\<forall>i<k. empty (cellAt b1 i c)) \<and>
            length (filter (\<lambda>x. \<not> empty x) (map (\<lambda>i. cellAt b i c) [0..<n])) = n - k \<and>
            (\<forall>i. k \<le> i \<and> i < n \<longrightarrow>
               cellAt b1 i c = (filter (\<lambda>x. \<not> empty x) (map (\<lambda>i. cellAt b i c) [0..<n]) ! (i - k))\<lparr>row := i\<rparr>)"
    unfolding b1_def by auto
  have col_m: "map (\<lambda>i. cellAt b1 i m) [0..<n] = map (\<lambda>i. cellAt b i m) [0..<n]"
    using IH(2) [of m] mn by simp
  from fall_column_invariant [OF IH(1) mn, of 0, folded b2_def, unfolded col_m]
  have w2: "wellFormed n b2"
    and oth: "\<And>i j. i < n \<Longrightarrow> j < n \<Longrightarrow> j \<noteq> m \<Longrightarrow> cellAt b2 i j = cellAt b1 i j"
    and this_col: "\<exists>k\<le>n.
            (\<forall>i<k. empty (cellAt b2 i m)) \<and>
            length (filter (\<lambda>x. \<not> empty x) (map (\<lambda>i. cellAt b i m) [0..<n])) = n - k \<and>
            (\<forall>i. k \<le> i \<and> i < n \<longrightarrow>
               cellAt b2 i m = (filter (\<lambda>x. \<not> empty x) (map (\<lambda>i. cellAt b i m) [0..<n]) ! (i - k))\<lparr>row := i\<rparr>)"
    by auto
  have fold_eq: "fold ?g [0..<Suc m] b = b2"
    by (simp add: b1_def b2_def)
  have later: "\<forall>c. Suc m \<le> c \<and> c < n \<longrightarrow> (\<forall>i<n. cellAt b2 i c = cellAt b i c)"
    using oth IH(2) by simp
  have earlier: "\<exists>k\<le>n.
            (\<forall>i<k. empty (cellAt b2 i c)) \<and>
            length (filter (\<lambda>x. \<not> empty x) (map (\<lambda>i. cellAt b i c) [0..<n])) = n - k \<and>
            (\<forall>i. k \<le> i \<and> i < n \<longrightarrow>
               cellAt b2 i c = (filter (\<lambda>x. \<not> empty x) (map (\<lambda>i. cellAt b i c) [0..<n]) ! (i - k))\<lparr>row := i\<rparr>)"
    if c: "c < Suc m" for c
  proof (cases "c = m")
    case True
    then show ?thesis using this_col by simp
  next
    case False
    then have cm: "c < m" using c by simp
    then have cn: "c < n" using mn by simp
    from IH(3) [OF cm] obtain k where k: "k \<le> n"
      "\<forall>i<k. empty (cellAt b1 i c)"
      "length (filter (\<lambda>x. \<not> empty x) (map (\<lambda>i. cellAt b i c) [0..<n])) = n - k"
      "\<forall>i. k \<le> i \<and> i < n \<longrightarrow>
               cellAt b1 i c = (filter (\<lambda>x. \<not> empty x) (map (\<lambda>i. cellAt b i c) [0..<n]) ! (i - k))\<lparr>row := i\<rparr>"
      by blast
    have same: "\<And>i. i < n \<Longrightarrow> cellAt b2 i c = cellAt b1 i c"
      using oth cn False by simp
    show ?thesis
      using k same by (intro exI [of _ k]) auto
  qed
  show ?case
    unfolding fold_eq using w2 later earlier by blast
qed

text \<open>
  Claim C6. After \<^verbatim>\<open>makeCellsFall\<close> every column is a block of \<open>k\<close> empty cells
  on top of the cells that were not empty before the call, in the order they had from top
  to bottom: the cell at row \<open>i \<ge> k\<close> is the \<open>(i - k)\<close>-th non-empty cell of the
  original column, moved to row \<open>i\<close>.
\<close>

theorem makeCellsFall_compacts_each_column:
  assumes "wellFormed n b" "c < n"
  shows "\<exists>k\<le>n.
           (\<forall>i<k. empty (cellAt (makeCellsFall n b) i c)) \<and>
           (\<forall>i. k \<le> i \<and> i < n \<longrightarrow> \<not> empty (cellAt (makeCellsFall n b) i c)) \<and>
           length (filter (\<lambda>x. \<not> empty x) (map (\<lambda>i. cellAt b i c) [0..<n])) = n - k \<and>
           (\<forall>i. k \<le> i \<and> i < n \<longrightarrow>
              cellAt (makeCellsFall n b) i c =
                (filter (\<lambda>x. \<not> empty x) (map (\<lambda>i. cellAt b i c) [0..<n]) ! (i - k))\<lparr>row := i\<rparr>)"
proof -
  let ?F = "filter (\<lambda>x. \<not> empty x) (map (\<lambda>i. cellAt b i c) [0..<n])"
  from makeCellsFall_columns [OF assms(1) order_refl, folded makeCellsFall_def] assms(2)
  obtain k where k: "k \<le> n" "\<forall>i<k. empty (cellAt (makeCellsFall n b) i c)"
    "length ?F = n - k"
    "\<forall>i. k \<le> i \<and> i < n \<longrightarrow> cellAt (makeCellsFall n b) i c = (?F ! (i - k))\<lparr>row := i\<rparr>"
    by blast
  have "\<not> empty (cellAt (makeCellsFall n b) i c)" if i: "k \<le> i" "i < n" for i
  proof -
    have "i - k < length ?F" using i k(3) by simp
    then have "?F ! (i - k) \<in> set ?F" by (rule nth_mem)
    then have "\<not> empty (?F ! (i - k))" by simp
    then show ?thesis using k(4) i by simp
  qed
  then show ?thesis using k by (intro exI [of _ k]) auto
qed

text \<open>
  The column of the claim's example, column 0 of \<open>fallBoard\<close>: empty, gem, empty, gem.
\<close>

lemma wellFormed_fallBoard: "wellFormed 4 fallBoard"
  unfolding fallBoard_def
  by (intro wellFormed_markEmpty wellFormed_boardOfColors) simp_all

theorem makeCellsFall_compacts_each_column_witness:
  "wellFormed 4 fallBoard \<and>
   (\<exists>k\<le>4.
      (\<forall>i<k. empty (cellAt (makeCellsFall 4 fallBoard) i 0)) \<and>
      (\<forall>i. k \<le> i \<and> i < 4 \<longrightarrow> \<not> empty (cellAt (makeCellsFall 4 fallBoard) i 0)) \<and>
      length (filter (\<lambda>x. \<not> empty x) (map (\<lambda>i. cellAt fallBoard i 0) [0..<4])) = 4 - k \<and>
      (\<forall>i. k \<le> i \<and> i < 4 \<longrightarrow>
         cellAt (makeCellsFall 4 fallBoard) i 0 =
           (filter (\<lambda>x. \<not> empty x) (map (\<lambda>i. cellAt fallBoard i 0) [0..<4]) ! (i - k))\<lparr>row := i\<rparr>))"
  using makeCellsFall_compacts_each_column [OF wellFormed_fallBoard, of 0] wellFormed_fallBoard
  by simp

lemma fallBoard_column:
  "map (\<lambda>i. (color (cellAt fallBoard i 0), empty (cellAt fallBoard i 0))) [0, 1, 2, 3] =
     [(Some ''blue'', True), (Some ''red'', False), (Some ''green'', True), (Some ''white'', False)] \<and>
   map (\<lambda>i. (color (cellAt (makeCellsFall 4 fallBoard) i 0), empty (cellAt (makeCellsFall 4 fallBoard) i 0)))
       [0, 1, 2, 3] =
     [(Some ''blue'', True), (Some ''green'', True), (Some ''red'', False), (Some ''white'', False)]"
  by code_simp

section \<open>The move counter\<close>

lemma refillBoard_counters [simp]:
  "moves (refillBoard n rnd s) = moves s" "isGameOver (refillBoard n rnd s) = isGameOver s"
  by (simp_all add: refillBoard_def Let_def)

lemma cascadeRound_counters [simp]:
  "moves (cascadeRound n rnd k s) = moves s" "isGameOver (cascadeRound n rnd k s) = isGameOver s"
  by (simp_all add: cascadeRound_def Let_def setScore_def)

lemma cascadeLoop_counters:
  assumes "cascadeLoop n rnd counting k s = Some s'"
  shows "moves s' = moves s \<and> isGameOver s' = isGameOver s"
  using assms
proof (induction rule: cascadeLoop.raw_induct [rotated 1, consumes 1])
  case (1 loop n rnd counting k s s')
  show ?case
  proof (cases "boardShouldExplode n (board s)")
    case True
    with 1(2) have "loop n rnd counting (k + 1) (cascadeRound n rnd (if counting then k else 0) s) = Some s'"
      by simp
    from 1(1) [OF this] show ?thesis by simp
  next
    case False
    with 1(2) show ?thesis by simp
  qed
qed

lemma decrementMoves_counters:
  "moves (decrementMoves s) = moves s - 1"
  "isGameOver (decrementMoves s) = (isGameOver s \<or> moves s - 1 \<le> 0)"
  by (simp_all add: decrementMoves_def setMoves_def gameOver_def Let_def)

lemma finishMove_counters:
  "moves (finishMove n s) = moves s"
  "isGameOver s \<Longrightarrow> isGameOver (finishMove n s)"
  by (simp_all add: finishMove_def gameOver_def Let_def)

lemma clickPowerUp_counters:
  assumes "clickPowerUp n rnd s cell = Some s'"
  shows "moves s' = moves s - 1" "isGameOver s \<or> moves s - 1 \<le> 0 \<Longrightarrow> isGameOver s'"
proof -
  define s6 where "s6 = refillBoard n rnd
     ((decrementMoves (s\<lparr>moveInProgress := True, board := triggerPowerUp n (board s) cell,
         board := destroyCells n (triggerPowerUp n (board s) cell)\<rparr>))
       \<lparr>board := makeCellsFall n (board (decrementMoves (s\<lparr>moveInProgress := True, board := triggerPowerUp n (board s) cell,
         board := destroyCells n (triggerPowerUp n (board s) cell)\<rparr>)))\<rparr>)"
  from assms obtain s7 where l: "cascadeLoop n rnd False 0 s6 = Some s7" and f: "s' = finishMove n s7"
    unfolding clickPowerUp_def Let_def s6_def by (auto split: option.splits)
  have m6: "moves s6 = moves s - 1" "isGameOver s6 = (isGameOver s \<or> moves s - 1 \<le> 0)"
    by (simp_all add: s6_def decrementMoves_counters)
  from cascadeLoop_counters [OF l] m6
  show "moves s' = moves s - 1" "isGameOver s \<or> moves s - 1 \<le> 0 \<Longrightarrow> isGameOver s'"
    by (simp_all add: f finishMove_counters)
qed

lemma swapMove_counters:
  assumes "swapMove n rnd s firstCell secondCell = Some s'"
  defines "st \<equiv> swapAndTrigger n (board s) firstCell secondCell"
  defines "s3 \<equiv> (if fst st
                  then refillBoard n rnd (s\<lparr>board := makeCellsFall n (destroyCells n (snd st))\<rparr>)
                  else s\<lparr>board := snd st\<rparr>)"
  shows "moves s' = (if boardShouldExplode n (board s3) \<or> fst st then moves s - 1 else moves s)"
    and "isGameOver s \<Longrightarrow> isGameOver s'"
    and "(boardShouldExplode n (board s3) \<or> fst st) \<Longrightarrow> moves s - 1 \<le> 0 \<Longrightarrow> isGameOver s'"
proof -
  define t3 where "t3 = (if fst st
       then refillBoard n rnd (s\<lparr>moveInProgress := True, board := snd st,
                                  board := makeCellsFall n (destroyCells n (snd st))\<rparr>)
       else s\<lparr>moveInProgress := True, board := snd st\<rparr>)"
  have b3: "board t3 = board s3"
    by (simp add: t3_def s3_def refillBoard_def Let_def)
  have c3: "moves t3 = moves s" "isGameOver t3 = isGameOver s"
    by (simp_all add: t3_def)
  have unfold: "swapMove n rnd s firstCell secondCell =
     (if boardShouldExplode n (board t3) \<or> fst st then
           (case cascadeLoop n rnd True 0 (decrementMoves t3) of
              None \<Rightarrow> None
            | Some s4 \<Rightarrow> Some (finishMove n s4))
         else
           (let sw = swapCells (board t3)
                       (cellAt (board t3) (row secondCell) (column secondCell))
                       (cellAt (board t3) (row firstCell) (column firstCell))
            in Some (t3\<lparr>board := snd (snd sw), moveInProgress := False\<rparr>)))"
    by (simp add: swapMove_def Let_def t3_def st_def)
  show "moves s' = (if boardShouldExplode n (board s3) \<or> fst st then moves s - 1 else moves s)"
    and "isGameOver s \<Longrightarrow> isGameOver s'"
    and "(boardShouldExplode n (board s3) \<or> fst st) \<Longrightarrow> moves s - 1 \<le> 0 \<Longrightarrow> isGameOver s'"
  proof (atomize (full), cases "boardShouldExplode n (board t3) \<or> fst st")
    case True
    with assms(1) unfold obtain s4 where
      l: "cascadeLoop n rnd True 0 (decrementMoves t3) = Some s4" and f: "s' = finishMove n s4"
      by (auto split: option.splits)
    from cascadeLoop_counters [OF l]
    have "moves s4 = moves s - 1" "isGameOver s4 = (isGameOver s \<or> moves s - 1 \<le> 0)"
      by (simp_all add: decrementMoves_counters c3)
    then show "(moves s' = (if boardShouldExplode n (board s3) \<or> fst st then moves s - 1 else moves s)) \<and>
      (isGameOver s \<longrightarrow> isGameOver s') \<and>
      (boardShouldExplode n (board s3) \<or> fst st \<longrightarrow> moves s - 1 \<le> 0 \<longrightarrow> isGameOver s')"
      using True by (auto simp: f finishMove_counters b3)
  next
    case False
    with assms(1) unfold have "s' = t3\<lparr>board := snd (snd (swapCells (board t3)
                       (cellAt (board t3) (row secondCell) (column secondCell))
                       (cellAt (board t3) (row firstCell) (column firstCell)))), moveInProgress := False\<rparr>"
      by (simp add: Let_def)
    then have "moves s' = moves s" "isGameOver s' = isGameOver s" by (simp_all add: c3)
    then show "(moves s' = (if boardShouldExplode n (board s3) \<or> fst st then moves s - 1 else moves s)) \<and>
      (isGameOver s \<longrightarrow> isGameOver s') \<and>
      (boardShouldExplode n (board s3) \<or> fst st \<longrightarrow> moves s - 1 \<le> 0 \<longrightarrow> isGameOver s')"
      using False by (auto simp: b3)
  qed
qed

lemma onPointerDown_counters:
  assumes "onPointerDown n rnd s r c = Some s'"
  shows "moves s' = (if acceptedMove n rnd s r c then moves s - 1 else moves s)"
    and "isGameOver s \<Longrightarrow> isGameOver s'"
    and "acceptedMove n rnd s r c \<Longrightarrow> moves s - 1 \<le> 0 \<Longrightarrow> isGameOver s'"
proof -
  let ?p = "cellAt (board s) r c"
  have "(moves s' = (if acceptedMove n rnd s r c then moves s - 1 else moves s)) \<and>
        (isGameOver s \<longrightarrow> isGameOver s') \<and>
        (acceptedMove n rnd s r c \<longrightarrow> moves s - 1 \<le> 0 \<longrightarrow> isGameOver s')"
  proof (cases "moveInProgress s")
    case True
    then show ?thesis using assms by (simp add: onPointerDown_def acceptedMove_def)
  next
    case nip: False
    show ?thesis
    proof (cases "powerup ?p \<noteq> None \<and> selectedCell s = None")
      case True
      then have "clickPowerUp n rnd s ?p = Some s'"
        using assms nip by (simp add: onPointerDown_def Let_def)
      from clickPowerUp_counters [OF this] True nip show ?thesis
        by (auto simp: acceptedMove_def Let_def)
    next
      case direct: False
      show ?thesis
      proof (cases "selectedCell s")
        case None
        then show ?thesis
          using assms nip direct by (auto simp: onPointerDown_def acceptedMove_def Let_def)
      next
        case (Some firstCell)
        show ?thesis
        proof (cases "firstCell \<noteq> ?p \<and> cellsAreNeighbours firstCell ?p")
          case False
          then show ?thesis
            using assms nip direct Some
            by (auto simp: onPointerDown_def acceptedMove_def Let_def split: if_splits)
        next
          case True
          then have sm: "swapMove n rnd (s\<lparr>selectedCell := None\<rparr>) firstCell ?p = Some s'"
            using assms nip direct Some by (simp add: onPointerDown_def Let_def)
          have acc: "acceptedMove n rnd s r c =
             (boardShouldExplode n (board (if fst (swapAndTrigger n (board s) firstCell ?p)
                  then refillBoard n rnd (s\<lparr>board := makeCellsFall n (destroyCells n (snd (swapAndTrigger n (board s) firstCell ?p)))\<rparr>)
                  else s\<lparr>board := snd (swapAndTrigger n (board s) firstCell ?p)\<rparr>)) \<or>
              fst (swapAndTrigger n (board s) firstCell ?p))"
            using nip direct Some True by (simp add: acceptedMove_def Let_def)
          have brd: "board (if fst (swapAndTrigger n (board s) firstCell ?p)
                  then refillBoard n rnd (s\<lparr>selectedCell := None, board := makeCellsFall n (destroyCells n (snd (swapAndTrigger n (board s) firstCell ?p)))\<rparr>)
                  else s\<lparr>selectedCell := None, board := snd (swapAndTrigger n (board s) firstCell ?p)\<rparr>)
               = board (if fst (swapAndTrigger n (board s) firstCell ?p)
                  then refillBoard n rnd (s\<lparr>board := makeCellsFall n (destroyCells n (snd (swapAndTrigger n (board s) firstCell ?p)))\<rparr>)
                  else s\<lparr>board := snd (swapAndTrigger n (board s) firstCell ?p)\<rparr>)"
            by (simp add: refillBoard_def Let_def)
          from swapMove_counters [OF sm] show ?thesis
            by (simp add: acc brd)
        qed
      qed
    qed
  qed
  then show "moves s' = (if acceptedMove n rnd s r c then moves s - 1 else moves s)"
    and "isGameOver s \<Longrightarrow> isGameOver s'"
    and "acceptedMove n rnd s r c \<Longrightarrow> moves s - 1 \<le> 0 \<Longrightarrow> isGameOver s'"
    by simp_all
qed

lemma play_counters:
  assumes "play n rnd s events = Some (s', k)" "moves s \<le> 0 \<longrightarrow> isGameOver s"
  shows "moves s' = moves s - int k \<and> (moves s' \<le> 0 \<longrightarrow> isGameOver s')"
  using assms
proof (induction events arbitrary: s s' k)
  case Nil
  then show ?case by simp
next
  case (Cons ev events)
  obtain r c where ev: "ev = (r, c)" by (cases ev)
  from Cons.prems(1) obtain s1 k1 where
    o: "onPointerDown n rnd s r c = Some s1" and
    p: "play n rnd s1 events = Some (s', k1)" and
    k: "k = (if acceptedMove n rnd s r c then k1 + 1 else k1)"
    by (auto simp: ev split: option.splits)
  note C = onPointerDown_counters [OF o]
  have inv: "moves s1 \<le> 0 \<longrightarrow> isGameOver s1"
    using C Cons.prems(2) by (auto split: if_splits)
  from Cons.IH [OF p inv] C(1) k show ?case by (auto split: if_splits)
qed

text \<open>
  Claim C9. A new game starts with 30 moves. A pointer event that returns changes the
  counter only when it is an accepted move, and then by exactly one, and sets the
  game-over flag as soon as the decremented counter is not positive. So after \<open>k\<close>
  accepted moves of a game the counter is \<open>30 - k\<close>, and from the thirtieth on the game
  is over, whatever moves the board still offers.
\<close>

theorem thirty_moves_per_game:
  "moves (startNewGame b s0) = 30 \<and>
   (\<forall>s r c s'. onPointerDown n rnd s r c = Some s' \<longrightarrow>
      moves s' = (if acceptedMove n rnd s r c then moves s - 1 else moves s) \<and>
      (acceptedMove n rnd s r c \<and> moves s - 1 \<le> 0 \<longrightarrow> isGameOver s')) \<and>
   (\<forall>events s' k. play n rnd (startNewGame b s0) events = Some (s', k) \<longrightarrow>
      moves s' = 30 - int k \<and> (30 \<le> k \<longrightarrow> isGameOver s'))"
proof (intro conjI allI impI)
  show m: "moves (startNewGame b s0) = 30"
    by (simp add: startNewGame_def setMoves_def setScore_def)
  fix events s' k
  assume p: "play n rnd (startNewGame b s0) events = Some (s', k)"
  from play_counters [OF p] m
  show "moves s' = 30 - int k" and "30 \<le> k \<Longrightarrow> isGameOver s'" by auto
next
  fix s r c s'
  assume o: "onPointerDown n rnd s r c = Some s'"
  show "moves s' = (if acceptedMove n rnd s r c then moves s - 1 else moves s)"
    by (rule onPointerDown_counters(1) [OF o])
  assume "acceptedMove n rnd s r c \<and> moves s - 1 \<le> 0"
  then show "isGameOver s'" using onPointerDown_counters(3) [OF o] by simp
qed

text \<open>
  A game of two pointer events on \<open>smallBoard\<close>: the cell at row 0, column 1 is selected
  and swapped with the one below it, which completes the red row 0.
\<close>

lemma smallBoard_play:
  "play 3 fixedPicks (startNewGame smallBoard idleScene) [(0, 1), (1, 1)] \<noteq> None"
  "snd (the (play 3 fixedPicks (startNewGame smallBoard idleScene) [(0, 1), (1, 1)])) = 1"
  by code_simp+

theorem thirty_moves_per_game_witness:
  "play 3 fixedPicks (startNewGame smallBoard idleScene) [(0, 1), (1, 1)] \<noteq> None \<and>
   snd (the (play 3 fixedPicks (startNewGame smallBoard idleScene) [(0, 1), (1, 1)])) = 1 \<and>
   moves (fst (the (play 3 fixedPicks (startNewGame smallBoard idleScene) [(0, 1), (1, 1)]))) = 29"
proof -
  obtain s' where p: "play 3 fixedPicks (startNewGame smallBoard idleScene) [(0, 1), (1, 1)] = Some (s', 1)"
    using smallBoard_play by (cases "play 3 fixedPicks (startNewGame smallBoard idleScene) [(0, 1), (1, 1)]") auto
  from thirty_moves_per_game [of smallBoard idleScene 3 fixedPicks] p
  have "moves s' = 30 - int 1" by blast
  then show ?thesis using p by simp
qed

section \<open>The no-moves oracle\<close>

lemma window_starts:
  "list_ex P [int c - int explosionThreshold + 1 .. int c] \<longleftrightarrow>
     P (int c - 2) \<or> P (int c - 1) \<or> P (int c)"
proof -
  have "[int c - int explosionThreshold + 1 .. int c] = [int c - 2, int c - 1, int c]"
    by (simp add: explosionThreshold_def upto_rec1 [of "int c - 2"] upto_rec1 [of "int c - 1"] upto_rec1 [of "int c"])
  then show ?thesis by simp
qed

lemma window_pairs:
  "0 \<le> sp \<Longrightarrow>
   list_all Q [nat sp ..< nat (sp + int explosionThreshold - 1)] \<longleftrightarrow> Q (nat sp) \<and> Q (nat sp + 1)"
proof -
  assume "0 \<le> sp"
  then have "nat (sp + int explosionThreshold - 1) = Suc (Suc (nat sp))"
    by (simp add: explosionThreshold_def)
  then show ?thesis by (simp add: upt_rec [of "nat sp"] upt_rec [of "Suc (nat sp)"])
qed

lemma shouldExplodeHorizontally_iff:
  "shouldExplodeHorizontally n b cell \<longleftrightarrow>
     (\<exists>s. s \<le> column cell \<and> column cell \<le> s + 2 \<and> s + 2 < n \<and>
          color (cellAt b (row cell) s) = color (cellAt b (row cell) (s + 1)) \<and>
          color (cellAt b (row cell) (s + 1)) = color (cellAt b (row cell) (s + 2)))"
  (is "?L \<longleftrightarrow> ?R")
proof -
  let ?c = "column cell"
  let ?W = "\<lambda>s. s + 2 < n \<and>
          color (cellAt b (row cell) s) = color (cellAt b (row cell) (s + 1)) \<and>
          color (cellAt b (row cell) (s + 1)) = color (cellAt b (row cell) (s + 2))"
  let ?P = "\<lambda>sp. (let endPosition = sp + int explosionThreshold - 1
         in sp \<ge> 0 \<and> endPosition < int n \<and>
            list_all (\<lambda>index. color (cellAt b (row cell) index) = color (cellAt b (row cell) (index + 1)))
                     [nat sp ..< nat endPosition])"
  have P: "?P sp \<longleftrightarrow> 0 \<le> sp \<and> ?W (nat sp)" for sp
  proof (cases "0 \<le> sp")
    case True
    have 1: "list_all (\<lambda>index. color (cellAt b (row cell) index) = color (cellAt b (row cell) (index + 1)))
                     [nat sp ..< nat (sp + int explosionThreshold - 1)] \<longleftrightarrow>
             color (cellAt b (row cell) (nat sp)) = color (cellAt b (row cell) (nat sp + 1)) \<and>
             color (cellAt b (row cell) (nat sp + 1)) = color (cellAt b (row cell) (nat sp + 1 + 1))"
      by (rule window_pairs [OF True])
    have 2: "sp + int explosionThreshold - 1 < int n \<longleftrightarrow> nat sp + 2 < n"
      using True by (auto simp: explosionThreshold_def)
    show ?thesis
      unfolding Let_def 1 2 using True by (auto simp: numeral_2_eq_2)
  next
    case False
    then show ?thesis by (simp add: Let_def)
  qed
  have "?L \<longleftrightarrow> ?P (int ?c - 2) \<or> ?P (int ?c - 1) \<or> ?P (int ?c)"
    unfolding shouldExplodeHorizontally_def by (rule window_starts)
  also have "\<dots> \<longleftrightarrow> (2 \<le> ?c \<and> ?W (?c - 2)) \<or> (1 \<le> ?c \<and> ?W (?c - 1)) \<or> ?W ?c"
    unfolding P by (simp add: nat_diff_distrib' Suc_le_eq)
  also have "\<dots> \<longleftrightarrow> ?R"
  proof
    assume "(2 \<le> ?c \<and> ?W (?c - 2)) \<or> (1 \<le> ?c \<and> ?W (?c - 1)) \<or> ?W ?c"
    then show ?R
    proof (elim disjE conjE)
      assume "2 \<le> ?c" "?c - 2 + 2 < n"
        "color (cellAt b (row cell) (?c - 2)) = color (cellAt b (row cell) (?c - 2 + 1))"
        "color (cellAt b (row cell) (?c - 2 + 1)) = color (cellAt b (row cell) (?c - 2 + 2))"
      then show ?R by (intro exI [of _ "?c - 2"]) simp
    next
      assume "1 \<le> ?c" "?c - 1 + 2 < n"
        "color (cellAt b (row cell) (?c - 1)) = color (cellAt b (row cell) (?c - 1 + 1))"
        "color (cellAt b (row cell) (?c - 1 + 1)) = color (cellAt b (row cell) (?c - 1 + 2))"
      then show ?R by (intro exI [of _ "?c - 1"]) simp
    next
      assume "?c + 2 < n"
        "color (cellAt b (row cell) ?c) = color (cellAt b (row cell) (?c + 1))"
        "color (cellAt b (row cell) (?c + 1)) = color (cellAt b (row cell) (?c + 2))"
      then show ?R by (intro exI [of _ "?c"]) simp
    qed
  next
    assume ?R
    then obtain s where s: "s \<le> ?c" "?c \<le> s + 2" "?W s" by blast
    then consider "s = ?c" | "s = ?c - 1 \<and> 1 \<le> ?c" | "s = ?c - 2 \<and> 2 \<le> ?c" by arith
    then show "(2 \<le> ?c \<and> ?W (?c - 2)) \<or> (1 \<le> ?c \<and> ?W (?c - 1)) \<or> ?W ?c"
      using s(3) by cases auto
  qed
  finally show ?thesis .
qed

lemma shouldExplodeVertically_iff:
  "shouldExplodeVertically n b cell \<longleftrightarrow>
     (\<exists>s. s \<le> row cell \<and> row cell \<le> s + 2 \<and> s + 2 < n \<and>
          color (cellAt b s (column cell)) = color (cellAt b (s + 1) (column cell)) \<and>
          color (cellAt b (s + 1) (column cell)) = color (cellAt b (s + 2) (column cell)))"
  (is "?L \<longleftrightarrow> ?R")
proof -
  let ?c = "row cell"
  let ?W = "\<lambda>s. s + 2 < n \<and>
          color (cellAt b s (column cell)) = color (cellAt b (s + 1) (column cell)) \<and>
          color (cellAt b (s + 1) (column cell)) = color (cellAt b (s + 2) (column cell))"
  let ?P = "\<lambda>sp. (let endPosition = sp + int explosionThreshold - 1
         in sp \<ge> 0 \<and> endPosition < int n \<and>
            list_all (\<lambda>index. color (cellAt b index (column cell)) = color (cellAt b (index + 1) (column cell)))
                     [nat sp ..< nat endPosition])"
  have P: "?P sp \<longleftrightarrow> 0 \<le> sp \<and> ?W (nat sp)" for sp
  proof (cases "0 \<le> sp")
    case True
    have 1: "list_all (\<lambda>index. color (cellAt b index (column cell)) = color (cellAt b (index + 1) (column cell)))
                     [nat sp ..< nat (sp + int explosionThreshold - 1)] \<longleftrightarrow>
             color (cellAt b (nat sp) (column cell)) = color (cellAt b (nat sp + 1) (column cell)) \<and>
             color (cellAt b (nat sp + 1) (column cell)) = color (cellAt b (nat sp + 1 + 1) (column cell))"
      by (rule window_pairs [OF True])
    have 2: "sp + int explosionThreshold - 1 < int n \<longleftrightarrow> nat sp + 2 < n"
      using True by (auto simp: explosionThreshold_def)
    show ?thesis
      unfolding Let_def 1 2 using True by (auto simp: numeral_2_eq_2)
  next
    case False
    then show ?thesis by (simp add: Let_def)
  qed
  have "?L \<longleftrightarrow> ?P (int ?c - 2) \<or> ?P (int ?c - 1) \<or> ?P (int ?c)"
    unfolding shouldExplodeVertically_def by (rule window_starts)
  also have "\<dots> \<longleftrightarrow> (2 \<le> ?c \<and> ?W (?c - 2)) \<or> (1 \<le> ?c \<and> ?W (?c - 1)) \<or> ?W ?c"
    unfolding P by (simp add: nat_diff_distrib' Suc_le_eq)
  also have "\<dots> \<longleftrightarrow> ?R"
  proof
    assume "(2 \<le> ?c \<and> ?W (?c - 2)) \<or> (1 \<le> ?c \<and> ?W (?c - 1)) \<or> ?W ?c"
    then show ?R
    proof (elim disjE conjE)
      assume "2 \<le> ?c" "?c - 2 + 2 < n"
        "color (cellAt b (?c - 2) (column cell)) = color (cellAt b (?c - 2 + 1) (column cell))"
        "color (cellAt b (?c - 2 + 1) (column cell)) = color (cellAt b (?c - 2 + 2) (column cell))"
      then show ?R by (intro exI [of _ "?c - 2"]) simp
    next
      assume "1 \<le> ?c" "?c - 1 + 2 < n"
        "color (cellAt b (?c - 1) (column cell)) = color (cellAt b (?c - 1 + 1) (column cell))"
        "color (cellAt b (?c - 1 + 1) (column cell)) = color (cellAt b (?c - 1 + 2) (column cell))"
      then show ?R by (intro exI [of _ "?c - 1"]) simp
    next
      assume "?c + 2 < n"
        "color (cellAt b ?c (column cell)) = color (cellAt b (?c + 1) (column cell))"
        "color (cellAt b (?c + 1) (column cell)) = color (cellAt b (?c + 2) (column cell))"
      then show ?R by (intro exI [of _ "?c"]) simp
    qed
  next
    assume ?R
    then obtain s where s: "s \<le> ?c" "?c \<le> s + 2" "?W s" by blast
    then consider "s = ?c" | "s = ?c - 1 \<and> 1 \<le> ?c" | "s = ?c - 2 \<and> 2 \<le> ?c" by arith
    then show "(2 \<le> ?c \<and> ?W (?c - 2)) \<or> (1 \<le> ?c \<and> ?W (?c - 1)) \<or> ?W ?c"
      using s(3) by cases auto
  qed
  finally show ?thesis .
qed

lemma boardShouldExplode_iff:
  assumes "wellFormed n b"
  shows "boardShouldExplode n b \<longleftrightarrow> (\<exists>r<n. \<exists>c<n. shouldExplode n b (cellAt b r c))"
proof -
  have len: "length b = n" "\<And>r. r < n \<Longrightarrow> length (b ! r) = n"
    using assms by (simp_all add: wellFormed_iff)
  show ?thesis
    unfolding boardShouldExplode_def list_ex_iff cellAt_def
    by (metis in_set_conv_nth len)
qed

text \<open>
  On boards without power-ups: exchanging the contents of two cells of a board that does
  not explode can only complete a run through one of the two cells.
\<close>

lemma explosion_after_swap_is_local:
  assumes w: "wellFormed n b" and w': "wellFormed n b'"
    and nopow: "\<And>i j. i < n \<Longrightarrow> j < n \<Longrightarrow> powerup (cellAt b i j) = None"
    and nopow': "\<And>i j. i < n \<Longrightarrow> j < n \<Longrightarrow> powerup (cellAt b' i j) = None"
    and same: "\<And>i j. i < n \<Longrightarrow> j < n \<Longrightarrow> (i, j) \<noteq> (r1, c1) \<Longrightarrow> (i, j) \<noteq> (r2, c2) \<Longrightarrow>
                 color (cellAt b' i j) = color (cellAt b i j)"
    and quiet: "\<not> boardShouldExplode n b"
    and range: "r1 < n" "c1 < n" "r2 < n" "c2 < n"
  shows "boardShouldExplode n b' \<longleftrightarrow>
           shouldExplode n b' (cellAt b' r1 c1) \<or> shouldExplode n b' (cellAt b' r2 c2)"
proof
  assume "shouldExplode n b' (cellAt b' r1 c1) \<or> shouldExplode n b' (cellAt b' r2 c2)"
  then show "boardShouldExplode n b'"
    using range by (auto simp: boardShouldExplode_iff [OF w'])
next
  assume "boardShouldExplode n b'"
  then obtain r c where rc: "r < n" "c < n" and ex: "shouldExplode n b' (cellAt b' r c)"
    by (auto simp: boardShouldExplode_iff [OF w'])
  have pos': "\<And>i j. i < n \<Longrightarrow> j < n \<Longrightarrow> row (cellAt b' i j) = i \<and> column (cellAt b' i j) = j"
    using w' by (simp add: wellFormed_row wellFormed_column)
  have pos: "\<And>i j. i < n \<Longrightarrow> j < n \<Longrightarrow> row (cellAt b i j) = i \<and> column (cellAt b i j) = j"
    using w by (simp add: wellFormed_row wellFormed_column)
  have quiet': "\<And>i j. i < n \<Longrightarrow> j < n \<Longrightarrow> \<not> shouldExplode n b (cellAt b i j)"
    using quiet by (auto simp: boardShouldExplode_iff [OF w])
  show "shouldExplode n b' (cellAt b' r1 c1) \<or> shouldExplode n b' (cellAt b' r2 c2)"
  proof (rule ccontr)
    assume neg: "\<not> (shouldExplode n b' (cellAt b' r1 c1) \<or> shouldExplode n b' (cellAt b' r2 c2))"
    from ex have "shouldExplodeHorizontally n b' (cellAt b' r c) \<or> shouldExplodeVertically n b' (cellAt b' r c)"
      by (simp add: shouldExplode_def split: if_splits)
    then show False
    proof
      assume "shouldExplodeHorizontally n b' (cellAt b' r c)"
      then obtain s where s: "s \<le> c" "c \<le> s + 2" "s + 2 < n"
        "color (cellAt b' r s) = color (cellAt b' r (s + 1))"
        "color (cellAt b' r (s + 1)) = color (cellAt b' r (s + 2))"
        using pos' [OF rc] by (auto simp: shouldExplodeHorizontally_iff)
      have hit: "\<not> (r = i \<and> s \<le> j \<and> j \<le> s + 2)" if ij: "(i, j) = (r1, c1) \<or> (i, j) = (r2, c2)" for i j
      proof
        assume a: "r = i \<and> s \<le> j \<and> j \<le> s + 2"
        have "i < n" "j < n" using ij range by auto
        then have "shouldExplodeHorizontally n b' (cellAt b' i j)"
          using a s pos' by (auto simp: shouldExplodeHorizontally_iff)
        then have "shouldExplode n b' (cellAt b' i j)"
          using nopow' \<open>i < n\<close> \<open>j < n\<close> by (simp add: shouldExplode_def)
        then show False using neg ij by auto
      qed
      have "color (cellAt b' r j) = color (cellAt b r j)" if "s \<le> j" "j \<le> s + 2" for j
        using same [of r j] hit [of r j] that rc s(3) by auto
      then have "color (cellAt b r s) = color (cellAt b r (s + 1))"
        "color (cellAt b r (s + 1)) = color (cellAt b r (s + 2))"
        using s(4,5) by simp_all
      then have "shouldExplodeHorizontally n b (cellAt b r c)"
        using s(1-3) pos [OF rc] by (auto simp: shouldExplodeHorizontally_iff)
      then have "shouldExplode n b (cellAt b r c)"
        using nopow rc by (simp add: shouldExplode_def)
      then show False using quiet' rc by simp
    next
      assume "shouldExplodeVertically n b' (cellAt b' r c)"
      then obtain s where s: "s \<le> r" "r \<le> s + 2" "s + 2 < n"
        "color (cellAt b' s c) = color (cellAt b' (s + 1) c)"
        "color (cellAt b' (s + 1) c) = color (cellAt b' (s + 2) c)"
        using pos' [OF rc] by (auto simp: shouldExplodeVertically_iff)
      have hit: "\<not> (c = j \<and> s \<le> i \<and> i \<le> s + 2)" if ij: "(i, j) = (r1, c1) \<or> (i, j) = (r2, c2)" for i j
      proof
        assume a: "c = j \<and> s \<le> i \<and> i \<le> s + 2"
        have "i < n" "j < n" using ij range by auto
        then have "shouldExplodeVertically n b' (cellAt b' i j)"
          using a s pos' by (auto simp: shouldExplodeVertically_iff)
        then have "shouldExplode n b' (cellAt b' i j)"
          using nopow' \<open>i < n\<close> \<open>j < n\<close> by (simp add: shouldExplode_def)
        then show False using neg ij by auto
      qed
      have "color (cellAt b' i c) = color (cellAt b i c)" if "s \<le> i" "i \<le> s + 2" for i
        using same [of i c] hit [of i c] that rc s(3) by auto
      then have "color (cellAt b s c) = color (cellAt b (s + 1) c)"
        "color (cellAt b (s + 1) c) = color (cellAt b (s + 2) c)"
        using s(4,5) by simp_all
      then have "shouldExplodeVertically n b (cellAt b r c)"
        using s(1-3) pos [OF rc] by (auto simp: shouldExplodeVertically_iff)
      then have "shouldExplode n b (cellAt b r c)"
        using nopow rc by (simp add: shouldExplode_def)
      then show False using quiet' rc by simp
    qed
  qed
qed

lemma tryMoves_row_empty:
  assumes "wellFormed n b" "r + 1 < n" "m \<le> n - 1"
  shows "snd (fold (\<lambda>c acc'. tryMoves n r c acc') [0..<m] (acc, b)) = b \<and>
         (fst (fold (\<lambda>c acc'. tryMoves n r c acc') [0..<m] (acc, b)) = [] \<longleftrightarrow>
            acc = [] \<and>
            (\<forall>c<m. \<not> boardShouldExplode n (snd (snd (swapCells b (cellAt b r c) (cellAt b r (c + 1))))) \<and>
                   \<not> boardShouldExplode n (snd (snd (swapCells b (cellAt b r c) (cellAt b (r + 1) c))))))"
  using assms(3)
proof (induction m)
  case 0
  then show ?case by simp
next
  case (Suc m)
  let ?f = "\<lambda>c acc'. tryMoves n r c acc'"
  obtain acc1 where f: "fold ?f [0..<m] (acc, b) = (acc1, b)"
    using Suc by (metis Suc_leD prod.collapse)
  have m: "m + 1 < n" using Suc.prems by simp
  have IH: "acc1 = [] \<longleftrightarrow> acc = [] \<and>
            (\<forall>c<m. \<not> boardShouldExplode n (snd (snd (swapCells b (cellAt b r c) (cellAt b r (c + 1))))) \<and>
                   \<not> boardShouldExplode n (snd (snd (swapCells b (cellAt b r c) (cellAt b (r + 1) c)))))"
    using Suc f by simp
  have "fold ?f [0..<Suc m] (acc, b) = tryMoves n r m (fold ?f [0..<m] (acc, b))"
    by simp
  also have "\<dots> = tryMoves n r m (acc1, b)" by (simp only: f)
  finally have step: "fold ?f [0..<Suc m] (acc, b) =
          (acc1 @ (if boardShouldExplode n (snd (snd (swapCells b (cellAt b r m) (cellAt b r (m + 1)))))
                  then [(cellAt b r m, cellAt b r (m + 1))] else [])
               @ (if boardShouldExplode n (snd (snd (swapCells b (cellAt b r m) (cellAt b (r + 1) m))))
                  then [(cellAt b r m, cellAt b (r + 1) m)] else []),
           b)"
    by (simp only: tryMoves_restores [OF assms(1,2) m])
  show ?case
    unfolding step fst_conv snd_conv using IH by (auto simp: less_Suc_eq)
qed

lemma getWinningMoves_rows_empty:
  assumes "wellFormed n b" "m \<le> n - 1"
  shows "snd (fold (\<lambda>r acc. fold (\<lambda>c acc'. tryMoves n r c acc') [0..<n - 1] acc) [0..<m] (acc, b)) = b \<and>
         (fst (fold (\<lambda>r acc. fold (\<lambda>c acc'. tryMoves n r c acc') [0..<n - 1] acc) [0..<m] (acc, b)) = [] \<longleftrightarrow>
            acc = [] \<and>
            (\<forall>r<m. \<forall>c<n - 1.
               \<not> boardShouldExplode n (snd (snd (swapCells b (cellAt b r c) (cellAt b r (c + 1))))) \<and>
               \<not> boardShouldExplode n (snd (snd (swapCells b (cellAt b r c) (cellAt b (r + 1) c))))))"
  using assms(2)
proof (induction m)
  case 0
  then show ?case by simp
next
  case (Suc m)
  let ?g = "\<lambda>r acc. fold (\<lambda>c acc'. tryMoves n r c acc') [0..<n - 1] acc"
  obtain acc1 where f: "fold ?g [0..<m] (acc, b) = (acc1, b)"
    using Suc by (metis Suc_leD prod.collapse)
  have m: "m + 1 < n" using Suc.prems by simp
  have IH: "acc1 = [] \<longleftrightarrow> acc = [] \<and>
            (\<forall>r<m. \<forall>c<n - 1.
               \<not> boardShouldExplode n (snd (snd (swapCells b (cellAt b r c) (cellAt b r (c + 1))))) \<and>
               \<not> boardShouldExplode n (snd (snd (swapCells b (cellAt b r c) (cellAt b (r + 1) c)))))"
    using Suc f by simp
  have "fold ?g [0..<Suc m] (acc, b) = ?g m (fold ?g [0..<m] (acc, b))"
    by simp
  also have "\<dots> = ?g m (acc1, b)" by (simp only: f)
  finally have step: "fold ?g [0..<Suc m] (acc, b) = fold (\<lambda>c acc'. tryMoves n m c acc') [0..<n - 1] (acc1, b)" .
  note R = tryMoves_row_empty [OF assms(1) m order_refl, of acc1]
  show ?case
    unfolding step using R IH by (auto simp: less_Suc_eq)
qed

text \<open>What the oracle covers: the pairs whose upper or left cell lies outside the last row and the last column.\<close>

lemma getWinningMoves_empty_iff:
  assumes "wellFormed n b"
  shows "fst (getWinningMoves n b) = [] \<longleftrightarrow>
           (\<forall>r<n - 1. \<forall>c<n - 1.
               \<not> boardShouldExplode n (snd (snd (swapCells b (cellAt b r c) (cellAt b r (c + 1))))) \<and>
               \<not> boardShouldExplode n (snd (snd (swapCells b (cellAt b r c) (cellAt b (r + 1) c)))))"
  unfolding getWinningMoves_def
  using getWinningMoves_rows_empty [OF assms order_refl, of "[]"] by simp

lemma explosion_after_swapCells:
  assumes w: "wellFormed n b"
    and nopow: "\<And>i j. i < n \<Longrightarrow> j < n \<Longrightarrow> powerup (cellAt b i j) = None"
    and quiet: "\<not> boardShouldExplode n b"
    and range: "r1 < n" "c1 < n" "r2 < n" "c2 < n"
  shows "boardShouldExplode n (snd (snd (swapCells b (cellAt b r1 c1) (cellAt b r2 c2)))) \<longleftrightarrow>
           shouldExplode n (snd (snd (swapCells b (cellAt b r1 c1) (cellAt b r2 c2))))
             (cellAt (snd (snd (swapCells b (cellAt b r1 c1) (cellAt b r2 c2)))) r1 c1) \<or>
           shouldExplode n (snd (snd (swapCells b (cellAt b r1 c1) (cellAt b r2 c2))))
             (cellAt (snd (snd (swapCells b (cellAt b r1 c1) (cellAt b r2 c2)))) r2 c2)"
proof (rule explosion_after_swap_is_local [OF w _ nopow _ _ quiet range])
  show "wellFormed n (snd (snd (swapCells b (cellAt b r1 c1) (cellAt b r2 c2))))"
    by (rule swapCells_wellFormed [OF w range])
  fix i j assume ij: "i < n" "j < n"
  show "powerup (cellAt (snd (snd (swapCells b (cellAt b r1 c1) (cellAt b r2 c2)))) i j) = None"
    using nopow ij range by (simp add: swapCells_board(2) [OF w range])
  assume "(i, j) \<noteq> (r1, c1)" "(i, j) \<noteq> (r2, c2)"
  then show "color (cellAt (snd (snd (swapCells b (cellAt b r1 c1) (cellAt b r2 c2)))) i j) = color (cellAt b i j)"
    by (auto simp: swapCells_board(2) [OF w range])
qed

lemma boardOfColors_powerup:
  assumes "r < length css" "c < length (css ! r)"
  shows "powerup (cellAt (boardOfColors css) r c) = None"
  using assms by (simp add: boardOfColors_def cellAt_def gem_def)

lemma wellFormed_stuckBoard: "wellFormed 8 stuckBoard"
  unfolding stuckBoard_def
  by (rule wellFormed_boardOfColors) (simp_all add: stuckColors_def)

lemma stuckBoard_powerup: "i < 8 \<Longrightarrow> j < 8 \<Longrightarrow> powerup (cellAt stuckBoard i j) = None"
  unfolding stuckBoard_def
  by (rule boardOfColors_powerup) (auto simp: stuckColors_def nth_Cons' )

lemma stuckBoard_quiet: "\<not> boardShouldExplode 8 stuckBoard"
  by code_simp

lemma shouldExplode_windows:
  "shouldExplode n b cell \<longleftrightarrow>
     powerup cell = None \<and>
     ((2 \<le> column cell \<and> column cell < n \<and>
         color (cellAt b (row cell) (column cell - 2)) = color (cellAt b (row cell) (column cell - 1)) \<and>
         color (cellAt b (row cell) (column cell - 1)) = color (cellAt b (row cell) (column cell))) \<or>
      (1 \<le> column cell \<and> column cell + 1 < n \<and>
         color (cellAt b (row cell) (column cell - 1)) = color (cellAt b (row cell) (column cell)) \<and>
         color (cellAt b (row cell) (column cell)) = color (cellAt b (row cell) (column cell + 1))) \<or>
      (column cell + 2 < n \<and>
         color (cellAt b (row cell) (column cell)) = color (cellAt b (row cell) (column cell + 1)) \<and>
         color (cellAt b (row cell) (column cell + 1)) = color (cellAt b (row cell) (column cell + 2))) \<or>
      (2 \<le> row cell \<and> row cell < n \<and>
         color (cellAt b (row cell - 2) (column cell)) = color (cellAt b (row cell - 1) (column cell)) \<and>
         color (cellAt b (row cell - 1) (column cell)) = color (cellAt b (row cell) (column cell))) \<or>
      (1 \<le> row cell \<and> row cell + 1 < n \<and>
         color (cellAt b (row cell - 1) (column cell)) = color (cellAt b (row cell) (column cell)) \<and>
         color (cellAt b (row cell) (column cell)) = color (cellAt b (row cell + 1) (column cell))) \<or>
      (row cell + 2 < n \<and>
         color (cellAt b (row cell) (column cell)) = color (cellAt b (row cell + 1) (column cell)) \<and>
         color (cellAt b (row cell + 1) (column cell)) = color (cellAt b (row cell + 2) (column cell))))"
  (is "?L \<longleftrightarrow> ?R")
proof
  assume ?L
  then have p: "powerup cell = None"
    and hv: "shouldExplodeHorizontally n b cell \<or> shouldExplodeVertically n b cell"
    by (auto simp: shouldExplode_def split: if_splits)
  from hv show ?R
  proof
    assume "shouldExplodeHorizontally n b cell"
    then obtain s where s: "s \<le> column cell" "column cell \<le> s + 2" "s + 2 < n"
      "color (cellAt b (row cell) s) = color (cellAt b (row cell) (s + 1))"
      "color (cellAt b (row cell) (s + 1)) = color (cellAt b (row cell) (s + 2))"
      by (auto simp: shouldExplodeHorizontally_iff)
    then consider "column cell = s" | "column cell = s + 1" | "column cell = s + 2" by arith
    then show ?R using p s by cases auto
  next
    assume "shouldExplodeVertically n b cell"
    then obtain s where s: "s \<le> row cell" "row cell \<le> s + 2" "s + 2 < n"
      "color (cellAt b s (column cell)) = color (cellAt b (s + 1) (column cell))"
      "color (cellAt b (s + 1) (column cell)) = color (cellAt b (s + 2) (column cell))"
      by (auto simp: shouldExplodeVertically_iff)
    then consider "row cell = s" | "row cell = s + 1" | "row cell = s + 2" by arith
    then show ?R using p s by cases auto
  qed
next
  assume R: ?R
  then have p: "powerup cell = None" by simp
  from R consider
      (h2) "2 \<le> column cell" "column cell < n"
         "color (cellAt b (row cell) (column cell - 2)) = color (cellAt b (row cell) (column cell - 1))"
         "color (cellAt b (row cell) (column cell - 1)) = color (cellAt b (row cell) (column cell))"
    | (h1) "1 \<le> column cell" "column cell + 1 < n"
         "color (cellAt b (row cell) (column cell - 1)) = color (cellAt b (row cell) (column cell))"
         "color (cellAt b (row cell) (column cell)) = color (cellAt b (row cell) (column cell + 1))"
    | (h0) "column cell + 2 < n"
         "color (cellAt b (row cell) (column cell)) = color (cellAt b (row cell) (column cell + 1))"
         "color (cellAt b (row cell) (column cell + 1)) = color (cellAt b (row cell) (column cell + 2))"
    | (v2) "2 \<le> row cell" "row cell < n"
         "color (cellAt b (row cell - 2) (column cell)) = color (cellAt b (row cell - 1) (column cell))"
         "color (cellAt b (row cell - 1) (column cell)) = color (cellAt b (row cell) (column cell))"
    | (v1) "1 \<le> row cell" "row cell + 1 < n"
         "color (cellAt b (row cell - 1) (column cell)) = color (cellAt b (row cell) (column cell))"
         "color (cellAt b (row cell) (column cell)) = color (cellAt b (row cell + 1) (column cell))"
    | (v0) "row cell + 2 < n"
         "color (cellAt b (row cell) (column cell)) = color (cellAt b (row cell + 1) (column cell))"
         "color (cellAt b (row cell + 1) (column cell)) = color (cellAt b (row cell + 2) (column cell))"
    by blast
  then have "shouldExplodeHorizontally n b cell \<or> shouldExplodeVertically n b cell"
  proof cases
    case h2
    have "\<exists>s. s \<le> column cell \<and> column cell \<le> s + 2 \<and> s + 2 < n \<and>
          color (cellAt b (row cell) s) = color (cellAt b (row cell) (s + 1)) \<and>
          color (cellAt b (row cell) (s + 1)) = color (cellAt b (row cell) (s + 2))"
      using h2 by (intro exI [of _ "column cell - 2"]) (simp add: numeral_2_eq_2 Suc_diff_Suc)
    then show ?thesis by (simp add: shouldExplodeHorizontally_iff)
  next
    case h1
    have "\<exists>s. s \<le> column cell \<and> column cell \<le> s + 2 \<and> s + 2 < n \<and>
          color (cellAt b (row cell) s) = color (cellAt b (row cell) (s + 1)) \<and>
          color (cellAt b (row cell) (s + 1)) = color (cellAt b (row cell) (s + 2))"
      using h1 by (intro exI [of _ "column cell - 1"]) simp
    then show ?thesis by (simp add: shouldExplodeHorizontally_iff)
  next
    case h0
    have "\<exists>s. s \<le> column cell \<and> column cell \<le> s + 2 \<and> s + 2 < n \<and>
          color (cellAt b (row cell) s) = color (cellAt b (row cell) (s + 1)) \<and>
          color (cellAt b (row cell) (s + 1)) = color (cellAt b (row cell) (s + 2))"
      using h0 by (intro exI [of _ "column cell"]) simp
    then show ?thesis by (simp add: shouldExplodeHorizontally_iff)
  next
    case v2
    have "\<exists>s. s \<le> row cell \<and> row cell \<le> s + 2 \<and> s + 2 < n \<and>
          color (cellAt b s (column cell)) = color (cellAt b (s + 1) (column cell)) \<and>
          color (cellAt b (s + 1) (column cell)) = color (cellAt b (s + 2) (column cell))"
      using v2 by (intro exI [of _ "row cell - 2"]) (simp add: numeral_2_eq_2 Suc_diff_Suc)
    then show ?thesis by (simp add: shouldExplodeVertically_iff)
  next
    case v1
    have "\<exists>s. s \<le> row cell \<and> row cell \<le> s + 2 \<and> s + 2 < n \<and>
          color (cellAt b s (column cell)) = color (cellAt b (s + 1) (column cell)) \<and>
          color (cellAt b (s + 1) (column cell)) = color (cellAt b (s + 2) (column cell))"
      using v1 by (intro exI [of _ "row cell - 1"]) simp
    then show ?thesis by (simp add: shouldExplodeVertically_iff)
  next
    case v0
    have "\<exists>s. s \<le> row cell \<and> row cell \<le> s + 2 \<and> s + 2 < n \<and>
          color (cellAt b s (column cell)) = color (cellAt b (s + 1) (column cell)) \<and>
          color (cellAt b (s + 1) (column cell)) = color (cellAt b (s + 2) (column cell))"
      using v0 by (intro exI [of _ "row cell"]) simp
    then show ?thesis by (simp add: shouldExplodeVertically_iff)
  qed
  then show ?L using p by (simp add: shouldExplode_def)
qed

lemma cellAt_boardOfColors:
  assumes "r < length css" "c < length (css ! r)"
  shows "cellAt (boardOfColors css) r c = gem r c (css ! r ! c)"
  using assms by (simp add: boardOfColors_def cellAt_def)

lemma stuckBoard_color: "i < 8 \<Longrightarrow> j < 8 \<Longrightarrow> color (cellAt stuckBoard i j) = Some (stuckColors ! i ! j)"
proof -
  assume "i < 8" "j < 8"
  then have "i < length stuckColors" "j < length (stuckColors ! i)"
    by (auto simp: stuckColors_def nth_Cons')
  then show ?thesis
    unfolding stuckBoard_def by (simp add: cellAt_boardOfColors gem_def)
qed

lemma stuckColors_rows:
  "stuckColors ! 0 = [''blue'', ''green'', ''orange'', ''red'', ''white'', ''yellow'', ''blue'', ''green'']"
  "stuckColors ! 1 = [''orange'', ''red'', ''white'', ''yellow'', ''blue'', ''green'', ''orange'', ''red'']"
  "stuckColors ! 2 = [''white'', ''yellow'', ''blue'', ''green'', ''orange'', ''red'', ''white'', ''yellow'']"
  "stuckColors ! 3 = [''blue'', ''green'', ''orange'', ''red'', ''white'', ''yellow'', ''blue'', ''green'']"
  "stuckColors ! 4 = [''orange'', ''red'', ''white'', ''yellow'', ''blue'', ''green'', ''orange'', ''red'']"
  "stuckColors ! 5 = [''white'', ''yellow'', ''blue'', ''green'', ''orange'', ''red'', ''white'', ''yellow'']"
  "stuckColors ! 6 = [''blue'', ''green'', ''orange'', ''red'', ''white'', ''yellow'', ''blue'', ''green'']"
  "stuckColors ! 7 = [''yellow'', ''yellow'', ''red'', ''yellow'', ''blue'', ''green'', ''orange'', ''red'']"
  "stuckColors ! Suc 0 = [''orange'', ''red'', ''white'', ''yellow'', ''blue'', ''green'', ''orange'', ''red'']"
  "stuckColors ! Suc (Suc 0) = [''white'', ''yellow'', ''blue'', ''green'', ''orange'', ''red'', ''white'', ''yellow'']"
  "stuckColors ! Suc (Suc (Suc 0)) = [''blue'', ''green'', ''orange'', ''red'', ''white'', ''yellow'', ''blue'', ''green'']"
  by (simp_all add: stuckColors_def)

lemmas stuckBoard_swap =
  explosion_after_swapCells [OF wellFormed_stuckBoard stuckBoard_powerup stuckBoard_quiet]
  swapCells_board(2) [OF wellFormed_stuckBoard]

lemma below_7: "(\<forall>c<7. P c) \<longleftrightarrow> P 0 \<and> P 1 \<and> P 2 \<and> P 3 \<and> P 4 \<and> P 5 \<and> P (6::nat)"
proof -
  have "c = 0 \<or> c = 1 \<or> c = 2 \<or> c = 3 \<or> c = 4 \<or> c = 5 \<or> c = 6" if "c < 7" for c :: nat
    using that by arith
  then show ?thesis by auto
qed

lemma stuckBoard_row_0:
  "\<forall>c<7.
     \<not> boardShouldExplode 8 (snd (snd (swapCells stuckBoard (cellAt stuckBoard 0 c) (cellAt stuckBoard 0 (c + 1))))) \<and>
     \<not> boardShouldExplode 8 (snd (snd (swapCells stuckBoard (cellAt stuckBoard 0 c) (cellAt stuckBoard (0 + 1) c))))"
  unfolding below_7
  by (simp add: stuckBoard_swap shouldExplode_windows stuckBoard_color stuckBoard_powerup
        stuckColors_rows wellFormed_row [OF wellFormed_stuckBoard] wellFormed_column [OF wellFormed_stuckBoard])

lemma stuckBoard_row_1:
  "\<forall>c<7.
     \<not> boardShouldExplode 8 (snd (snd (swapCells stuckBoard (cellAt stuckBoard 1 c) (cellAt stuckBoard 1 (c + 1))))) \<and>
     \<not> boardShouldExplode 8 (snd (snd (swapCells stuckBoard (cellAt stuckBoard 1 c) (cellAt stuckBoard (1 + 1) c))))"
  unfolding below_7
  by (simp add: stuckBoard_swap shouldExplode_windows stuckBoard_color stuckBoard_powerup
        stuckColors_rows wellFormed_row [OF wellFormed_stuckBoard] wellFormed_column [OF wellFormed_stuckBoard])

lemma stuckBoard_row_2:
  "\<forall>c<7.
     \<not> boardShouldExplode 8 (snd (snd (swapCells stuckBoard (cellAt stuckBoard 2 c) (cellAt stuckBoard 2 (c + 1))))) \<and>
     \<not> boardShouldExplode 8 (snd (snd (swapCells stuckBoard (cellAt stuckBoard 2 c) (cellAt stuckBoard (2 + 1) c))))"
  unfolding below_7
  by (simp add: stuckBoard_swap shouldExplode_windows stuckBoard_color stuckBoard_powerup
        stuckColors_rows wellFormed_row [OF wellFormed_stuckBoard] wellFormed_column [OF wellFormed_stuckBoard])

lemma stuckBoard_row_3:
  "\<forall>c<7.
     \<not> boardShouldExplode 8 (snd (snd (swapCells stuckBoard (cellAt stuckBoard 3 c) (cellAt stuckBoard 3 (c + 1))))) \<and>
     \<not> boardShouldExplode 8 (snd (snd (swapCells stuckBoard (cellAt stuckBoard 3 c) (cellAt stuckBoard (3 + 1) c))))"
  unfolding below_7
  by (simp add: stuckBoard_swap shouldExplode_windows stuckBoard_color stuckBoard_powerup
        stuckColors_rows wellFormed_row [OF wellFormed_stuckBoard] wellFormed_column [OF wellFormed_stuckBoard])

lemma stuckBoard_row_4:
  "\<forall>c<7.
     \<not> boardShouldExplode 8 (snd (snd (swapCells stuckBoard (cellAt stuckBoard 4 c) (cellAt stuckBoard 4 (c + 1))))) \<and>
     \<not> boardShouldExplode 8 (snd (snd (swapCells stuckBoard (cellAt stuckBoard 4 c) (cellAt stuckBoard (4 + 1) c))))"
  unfolding below_7
  by (simp add: stuckBoard_swap shouldExplode_windows stuckBoard_color stuckBoard_powerup
        stuckColors_rows wellFormed_row [OF wellFormed_stuckBoard] wellFormed_column [OF wellFormed_stuckBoard])

lemma stuckBoard_row_5:
  "\<forall>c<7.
     \<not> boardShouldExplode 8 (snd (snd (swapCells stuckBoard (cellAt stuckBoard 5 c) (cellAt stuckBoard 5 (c + 1))))) \<and>
     \<not> boardShouldExplode 8 (snd (snd (swapCells stuckBoard (cellAt stuckBoard 5 c) (cellAt stuckBoard (5 + 1) c))))"
  unfolding below_7
  by (simp add: stuckBoard_swap shouldExplode_windows stuckBoard_color stuckBoard_powerup
        stuckColors_rows wellFormed_row [OF wellFormed_stuckBoard] wellFormed_column [OF wellFormed_stuckBoard])

lemma stuckBoard_row_6:
  "\<forall>c<7.
     \<not> boardShouldExplode 8 (snd (snd (swapCells stuckBoard (cellAt stuckBoard 6 c) (cellAt stuckBoard 6 (c + 1))))) \<and>
     \<not> boardShouldExplode 8 (snd (snd (swapCells stuckBoard (cellAt stuckBoard 6 c) (cellAt stuckBoard (6 + 1) c))))"
  unfolding below_7
  by (simp add: stuckBoard_swap shouldExplode_windows stuckBoard_color stuckBoard_powerup
        stuckColors_rows wellFormed_row [OF wellFormed_stuckBoard] wellFormed_column [OF wellFormed_stuckBoard])

lemma stuckBoard_trials:
  "\<forall>r<7. \<forall>c<7.
     \<not> boardShouldExplode 8 (snd (snd (swapCells stuckBoard (cellAt stuckBoard r c) (cellAt stuckBoard r (c + 1))))) \<and>
     \<not> boardShouldExplode 8 (snd (snd (swapCells stuckBoard (cellAt stuckBoard r c) (cellAt stuckBoard (r + 1) c))))"
  unfolding below_7 [of "\<lambda>r. \<forall>c<7. _ r c"]
  using stuckBoard_row_0 stuckBoard_row_1 stuckBoard_row_2 stuckBoard_row_3
    stuckBoard_row_4 stuckBoard_row_5 stuckBoard_row_6
  by blast

text \<open>
  Claim C5 (an empty result of \<^verbatim>\<open>getWinningMoves\<close> means that no swap of two
  neighbours makes the board explode). Both loops stop before the last index, so the
  swaps inside the last row and inside the last column are never tried. On
  \<open>stuckBoard\<close> the oracle returns the empty list, and swapping the neighbours at
  columns 2 and 3 of the last row lines up three yellow gems.
\<close>

theorem oracle_misses_move_in_last_row:
  "fst (getWinningMoves 8 stuckBoard) = [] \<and>
   cellsAreNeighbours (cellAt stuckBoard 7 2) (cellAt stuckBoard 7 3) \<and>
   boardShouldExplode 8 (snd (snd (swapCells stuckBoard (cellAt stuckBoard 7 2) (cellAt stuckBoard 7 3))))"
proof (intro conjI)
  show "fst (getWinningMoves 8 stuckBoard) = []"
    using stuckBoard_trials by (simp add: getWinningMoves_empty_iff [OF wellFormed_stuckBoard])
  show "cellsAreNeighbours (cellAt stuckBoard 7 2) (cellAt stuckBoard 7 3)"
    by (simp add: cellsAreNeighbours_def wellFormed_row [OF wellFormed_stuckBoard]
          wellFormed_column [OF wellFormed_stuckBoard])
  show "boardShouldExplode 8 (snd (snd (swapCells stuckBoard (cellAt stuckBoard 7 2) (cellAt stuckBoard 7 3))))"
    by (simp add: stuckBoard_swap shouldExplode_windows stuckBoard_color stuckBoard_powerup
          stuckColors_rows wellFormed_row [OF wellFormed_stuckBoard] wellFormed_column [OF wellFormed_stuckBoard])
qed

end
